theory Spec2Isabelle
  imports Main "HOL-Library.AList" "HOL-Library.Sublist" "HOL-Library.Multiset"
begin

section \<open>Python strings\<close>

text \<open>
  A Python \<open>str\<close> is modelled as a \<open>string\<close> whose characters are the code points
  below 256.  \<open>str.lower\<close>, \<open>str.split\<close> (no argument) and the operator \<open>in\<close> on two
  strings are written out as Python defines them on that range.
\<close>

definition lower_char :: "char \<Rightarrow> char" where
  "lower_char c =
     (let n = (of_char c :: nat)
      in if (65 \<le> n \<and> n \<le> 90) \<or> (192 \<le> n \<and> n \<le> 222 \<and> n \<noteq> 215)
         then char_of (n + 32) else c)"

definition lower :: "string \<Rightarrow> string" where
  "lower s = map lower_char s"

definition is_space :: "char \<Rightarrow> bool" where
  "is_space c =
     (let n = (of_char c :: nat)
      in (9 \<le> n \<and> n \<le> 13) \<or> (28 \<le> n \<and> n \<le> 32) \<or> n = 133 \<or> n = 160)"

text \<open>\<open>split_aux cur s\<close>: \<open>cur\<close> is the word being read.\<close>

fun split_aux :: "string \<Rightarrow> string \<Rightarrow> string list" where
  "split_aux cur [] = (if cur = [] then [] else [cur])"
| "split_aux cur (c # cs) =
     (if is_space c
      then (if cur = [] then split_aux [] cs else cur # split_aux [] cs)
      else split_aux (cur @ [c]) cs)"

definition split :: "string \<Rightarrow> string list" where
  "split s = split_aux [] s"

text \<open>\<open>starts_with t s\<close>: \<open>s.startswith(t)\<close>; \<open>py_in t s\<close>: \<open>t in s\<close>.\<close>

fun starts_with :: "string \<Rightarrow> string \<Rightarrow> bool" where
  "starts_with [] s = True"
| "starts_with (a # t) [] = False"
| "starts_with (a # t) (c # s) = (a = c \<and> starts_with t s)"

fun py_in :: "string \<Rightarrow> string \<Rightarrow> bool" where
  "py_in t [] = (t = [])"
| "py_in t (c # s) = (starts_with t (c # s) \<or> py_in t s)"

text \<open>\<open>str.replace\<close> of one character by another.\<close>

definition replace_char :: "char \<Rightarrow> char \<Rightarrow> string \<Rightarrow> string" where
  "replace_char a b s = map (\<lambda>c. if c = a then b else c) s"

section \<open>Python values\<close>

text \<open>
  Tool payloads and synthesis results are typed \<open>Any\<close> in the source; they are
  modelled by the values the code builds, with \<open>VObj c\<close> for an object of any other
  class \<open>c\<close> (an object that is true and has no method \<open>get\<close>).
\<close>

datatype val =
    VNone
  | VBool bool
  | VInt int
  | VStr string
  | VList "val list"
  | VDict "(string \<times> val) list"
  | VObj string

text \<open>
  What can be raised.  The first five are subclasses of \<open>Exception\<close>; the last three
  (\<open>asyncio.CancelledError\<close>, \<open>KeyboardInterrupt\<close>, \<open>SystemExit\<close>) derive from
  \<open>BaseException\<close> only, so that a handler \<open>except Exception\<close> does not catch them.
\<close>

datatype exn =
    ValueError string
  | KeyError string
  | AttributeError string
  | TypeError string
  | RuntimeError string
  | CancelledError
  | KeyboardInterrupt
  | SystemExit string

text \<open>\<open>isinstance(e, Exception)\<close>.\<close>

fun is_exception :: "exn \<Rightarrow> bool" where
  "is_exception (ValueError m) = True"
| "is_exception (KeyError k) = True"
| "is_exception (AttributeError m) = True"
| "is_exception (TypeError m) = True"
| "is_exception (RuntimeError m) = True"
| "is_exception CancelledError = False"
| "is_exception KeyboardInterrupt = False"
| "is_exception (SystemExit c) = False"

text \<open>\<open>str(e)\<close>; a \<open>KeyError\<close> prints the repr of its key.\<close>

fun exn_str :: "exn \<Rightarrow> string" where
  "exn_str (ValueError m) = m"
| "exn_str (KeyError k) = [CHR 0x27] @ k @ [CHR 0x27]"
| "exn_str (AttributeError m) = m"
| "exn_str (TypeError m) = m"
| "exn_str (RuntimeError m) = m"
| "exn_str CancelledError = []"
| "exn_str KeyboardInterrupt = []"
| "exn_str (SystemExit c) = c"

text \<open>Truth value of a Python object, as \<open>if x:\<close> tests it.\<close>

fun truthy :: "val \<Rightarrow> bool" where
  "truthy VNone = False"
| "truthy (VBool b) = b"
| "truthy (VInt i) = (i \<noteq> 0)"
| "truthy (VStr s) = (s \<noteq> [])"
| "truthy (VList xs) = (xs \<noteq> [])"
| "truthy (VDict kvs) = (kvs \<noteq> [])"
| "truthy (VObj n) = True"

text \<open>\<open>type(x).__name__\<close>.\<close>

fun type_name :: "val \<Rightarrow> string" where
  "type_name VNone = ''NoneType''"
| "type_name (VBool b) = ''bool''"
| "type_name (VInt i) = ''int''"
| "type_name (VStr s) = ''str''"
| "type_name (VList xs) = ''list''"
| "type_name (VDict kvs) = ''dict''"
| "type_name (VObj c) = c"

text \<open>
  \<open>x.get(key, default)\<close>: only a dict has the method; on any other value Python
  raises \<open>AttributeError\<close> with the message
  \<^verbatim>\<open>'list' object has no attribute 'get'\<close> (for a list).
\<close>

definition no_attribute :: "val \<Rightarrow> string \<Rightarrow> exn" where
  "no_attribute v attr =
     AttributeError ([CHR 0x27] @ type_name v @ [CHR 0x27] @ '' object has no attribute '' @
                     [CHR 0x27] @ attr @ [CHR 0x27])"

fun val_get :: "val \<Rightarrow> string \<Rightarrow> val \<Rightarrow> exn + val" where
  "val_get (VDict kvs) k d = Inr (case map_of kvs k of None \<Rightarrow> d | Some v \<Rightarrow> v)"
| "val_get v k d = Inl (no_attribute v ''get'')"

section \<open>Workflow planner (services/workflow\_service.py)\<close>

record step =
  step_id :: string
  step_type :: string
  step_name :: string
  description :: string
  depends_on :: "string list"
  estimated_time :: nat
  tool_required :: string

definition any_word_in :: "string list \<Rightarrow> string \<Rightarrow> bool" where
  "any_word_in ws s = list_ex (\<lambda>word. py_in word s) ws"

definition search_words :: "string list" where
  "search_words = [''what'', ''how'', ''why'', ''when'', ''where'', ''who'']"

definition document_words :: "string list" where
  "document_words = [''document'', ''paper'', ''article'', ''study'', ''research'']"

definition web_search_step :: step where
  "web_search_step =
     \<lparr>step_id = ''web_search'', step_type = ''search'', step_name = ''Web Search'',
      description = ''Search for relevant information'', depends_on = [],
      estimated_time = 30, tool_required = ''web_search''\<rparr>"

definition document_analysis_step :: step where
  "document_analysis_step =
     \<lparr>step_id = ''document_analysis'', step_type = ''analysis'', step_name = ''Document Analysis'',
      description = ''Analyze and extract insights from documents'',
      depends_on = [''web_search''], estimated_time = 60,
      tool_required = ''document_ingestion''\<rparr>"

definition context_retrieval_step :: step where
  "context_retrieval_step =
     \<lparr>step_id = ''context_retrieval'', step_type = ''retrieval'', step_name = ''Context Retrieval'',
      description = ''Retrieve relevant context from memory'', depends_on = [],
      estimated_time = 10, tool_required = ''memory_service''\<rparr>"

definition synthesis_step :: step where
  "synthesis_step =
     \<lparr>step_id = ''synthesis'', step_type = ''synthesis'', step_name = ''Synthesis'',
      description = ''Synthesize findings into coherent answer'',
      depends_on = [''web_search'', ''document_analysis'', ''context_retrieval''],
      estimated_time = 30, tool_required = ''research_service''\<rparr>"

definition analyze_query_and_create_plan :: "string \<Rightarrow> string \<Rightarrow> step list" where
  "analyze_query_and_create_plan query user_id =
     (let query_lower = lower query;
          steps = [];
          steps = (if any_word_in search_words query_lower
                   then steps @ [web_search_step] else steps);
          steps = (if any_word_in document_words query_lower
                   then steps @ [document_analysis_step] else steps);
          steps = steps @ [context_retrieval_step];
          steps = steps @ [synthesis_step]
      in steps)"

section \<open>Context memory graph (services/memory\_service.py)\<close>

text \<open>
  A node of the graph is a dict with a \<open>type\<close> and a \<open>properties\<close> dict; the two
  shapes the service builds are the two constructors.  The dicts \<open>nodes\<close> and
  \<open>edges\<close> are association lists in insertion order, written with \<open>AList.update\<close>
  (an existing key keeps its place, a new key goes to the end) and read with
  \<open>map_of\<close>.  Wall-clock fields (\<open>created_at\<close>, \<open>timestamp\<close>) and the stored
  \<open>relevance_score\<close> hint are never read by the service and are left out; the clock
  reading that names a context node is the argument \<open>now\<close>.  The dicts
  \<open>embeddings\<close> and \<open>query_cache\<close> are never touched.
\<close>

datatype node =
    ResearchContext (ctx_query: string) (ctx_content: string) (ctx_sources: val)
      (ctx_user_id: string)
  | Concept (concept_name: string) (category: string) (frequency: int)

record edge =
  edge_source :: string
  edge_target :: string
  edge_type :: string
  weight :: nat

record memory_graph =
  nodes :: "(string \<times> node) list"
  edges :: "(string \<times> edge) list"

text \<open>The argument \<open>context_data\<close>: a dict of which only two keys are read.\<close>

record context_data =
  cd_content :: "string option"
  cd_sources :: "val option"

record hit =
  hit_context_id :: string
  hit_query :: string
  hit_content :: string
  hit_sources :: val
  relevance_score :: int

definition stop_words :: "string list" where
  "stop_words =
     [''the'', ''a'', ''an'', ''and'', ''or'', ''but'', ''in'', ''on'', ''at'', ''to'',
      ''for'', ''of'', ''with'', ''by'', ''is'', ''are'', ''was'', ''were'', ''be'',
      ''been'', ''have'', ''has'', ''had'', ''do'', ''does'', ''did'', ''will'', ''would'',
      ''could'', ''should'']"

text \<open>
  \<open>list(set(words))\<close> lists the distinct words in an order Python does not fix
  (it depends on the string hashes of the process).  The order is the parameter
  \<open>ord\<close>; \<open>set_order ord\<close> says that it lists each distinct word once.
\<close>

definition set_order :: "(string list \<Rightarrow> string list) \<Rightarrow> bool" where
  "set_order ord = (\<forall>ws. distinct (ord ws) \<and> set (ord ws) = set ws)"

definition extract_concepts ::
  "(string list \<Rightarrow> string list) \<Rightarrow> string \<Rightarrow> string \<Rightarrow> string list" where
  "extract_concepts ord query content =
     (let text = lower (query @ '' '' @ content);
          words = filter (\<lambda>word. length word > 3 \<and> word \<notin> set stop_words) (split text)
      in take 10 (ord words))"

definition concept_id_of :: "string \<Rightarrow> string" where
  "concept_id_of concept = ''concept_'' @ replace_char (CHR '' '') (CHR ''_'') (lower concept)"

definition mentions_edge :: "string \<Rightarrow> string \<Rightarrow> edge" where
  "mentions_edge context_id concept_id =
     \<lparr>edge_source = context_id, edge_target = concept_id, edge_type = ''mentions'',
      weight = 1\<rparr>"

text \<open>
  The loop of \<open>_create_concept_connections\<close>.  Incrementing \<open>frequency\<close> on a node
  that is not a concept node raises \<open>KeyError\<close>, and the graph keeps what the loop
  had written before.
\<close>

fun connect_concepts ::
  "string \<Rightarrow> string list \<Rightarrow> memory_graph \<Rightarrow> (exn + unit) \<times> memory_graph" where
  "connect_concepts context_id [] g = (Inr (), g)"
| "connect_concepts context_id (concept # rest) g =
     (let concept_id = concept_id_of concept;
          edge_id = ''edge_'' @ context_id @ ''_'' @ concept_id
      in case map_of (nodes g) concept_id of
           None \<Rightarrow>
             connect_concepts context_id rest
               (g\<lparr>nodes := AList.update concept_id (Concept concept ''extracted'' 1) (nodes g),
                  edges := AList.update edge_id (mentions_edge context_id concept_id) (edges g)\<rparr>)
         | Some (Concept n c f) \<Rightarrow>
             connect_concepts context_id rest
               (g\<lparr>nodes := AList.update concept_id (Concept n c (f + 1)) (nodes g),
                  edges := AList.update edge_id (mentions_edge context_id concept_id) (edges g)\<rparr>)
         | Some (ResearchContext q c s u) \<Rightarrow> (Inl (KeyError ''frequency''), g))"

definition create_concept_connections ::
  "(string list \<Rightarrow> string list) \<Rightarrow> string \<Rightarrow> string \<Rightarrow> context_data \<Rightarrow> memory_graph
     \<Rightarrow> (exn + unit) \<times> memory_graph" where
  "create_concept_connections ord context_id query context_data g =
     (let concepts = extract_concepts ord query
                       (case cd_content context_data of None \<Rightarrow> [] | Some c \<Rightarrow> c)
      in connect_concepts context_id concepts g)"

definition store_context ::
  "(string list \<Rightarrow> string list) \<Rightarrow> string \<Rightarrow> string \<Rightarrow> context_data \<Rightarrow> string
     \<Rightarrow> memory_graph \<Rightarrow> (exn + string) \<times> memory_graph" where
  "store_context ord now query context_data user_id g =
     (let context_id = ''context_'' @ now;
          context_node =
            ResearchContext query
              (case cd_content context_data of None \<Rightarrow> [] | Some c \<Rightarrow> c)
              (case cd_sources context_data of None \<Rightarrow> VList [] | Some s \<Rightarrow> s)
              user_id;
          g1 = g\<lparr>nodes := AList.update context_id context_node (nodes g)\<rparr>
      in case create_concept_connections ord context_id query context_data g1 of
           (Inl e, g2) \<Rightarrow> (Inl e, g2)
         | (Inr u, g2) \<Rightarrow> (Inr context_id, g2))"

text \<open>The inner loop of \<open>retrieve_context\<close> over the query terms.\<close>

definition score_terms :: "string list \<Rightarrow> string \<Rightarrow> string \<Rightarrow> int" where
  "score_terms query_terms content node_query =
     fold (\<lambda>term relevance_score.
             (let relevance_score =
                    (if py_in term content then relevance_score + 1 else relevance_score)
              in if py_in term node_query then relevance_score + 2 else relevance_score))
          query_terms 0"

text \<open>The outer loop of \<open>retrieve_context\<close> over \<open>nodes.items()\<close>.\<close>

fun scan_nodes :: "string list \<Rightarrow> string \<Rightarrow> (string \<times> node) list \<Rightarrow> hit list" where
  "scan_nodes query_terms user_id [] = []"
| "scan_nodes query_terms user_id ((node_id, Concept n c f) # rest) =
     scan_nodes query_terms user_id rest"
| "scan_nodes query_terms user_id ((node_id, ResearchContext q c s u) # rest) =
     (if u \<noteq> user_id then scan_nodes query_terms user_id rest
      else (let relevance = score_terms query_terms (lower c) (lower q)
            in if relevance > 0
               then \<lparr>hit_context_id = node_id, hit_query = q, hit_content = c, hit_sources = s,
                     relevance_score = relevance\<rparr> # scan_nodes query_terms user_id rest
               else scan_nodes query_terms user_id rest))"

text \<open>
  \<open>xs[:n]\<close> for any integer \<open>n\<close>, and the stable \<open>sort(key=..., reverse=True)\<close>:
  hits of equal score keep their order.
\<close>

definition slice_to :: "int \<Rightarrow> 'a list \<Rightarrow> 'a list" where
  "slice_to n xs = (if n \<ge> 0 then take (nat n) xs else take (length xs - nat (- n)) xs)"

definition sort_by_relevance :: "hit list \<Rightarrow> hit list" where
  "sort_by_relevance hs = sort_key (\<lambda>h. - relevance_score h) hs"

definition retrieve_with_terms ::
  "string list \<Rightarrow> string \<Rightarrow> int \<Rightarrow> memory_graph \<Rightarrow> hit list" where
  "retrieve_with_terms query_terms user_id max_results g =
     slice_to max_results (sort_by_relevance (scan_nodes query_terms user_id (nodes g)))"

definition retrieve_context :: "string \<Rightarrow> string \<Rightarrow> int \<Rightarrow> memory_graph \<Rightarrow> hit list" where
  "retrieve_context query user_id max_results g =
     retrieve_with_terms (split (lower query)) user_id max_results g"

section \<open>Workflow executor (services/workflow\_service.py)\<close>

text \<open>
  The registry maps a tool name to a tool.  \<open>execute\<close> of a tool is a function of its
  input that returns a \<open>ToolOutput\<close> or raises; of the output only \<open>data\<close> is read.
\<close>

record tool_input =
  ti_query :: string
  ti_step_id :: string
  ti_user_id :: string

record tool_output =
  success :: bool
  data :: val

type_synonym tool = "tool_input \<Rightarrow> exn + tool_output"

type_synonym registry = "string \<rightharpoonup> tool"

datatype plan_status = Planning | Executing | Completed | Failed | Error

text \<open>The three dicts a step returns, by their \<open>status\<close>.\<close>

datatype step_result =
    StepCompleted (result: val) (tool_used: string)
  | StepSkipped (reason: string)
  | StepError (error: string)

fun is_completed :: "step_result \<Rightarrow> bool" where
  "is_completed (StepCompleted r t) = True"
| "is_completed (StepSkipped r) = False"
| "is_completed (StepError e) = False"

record workflow =
  plan_id :: string
  wf_query :: string
  wf_user_id :: string
  status :: plan_status
  steps :: "step list"
  current_step :: nat
  results :: "(string \<times> step_result) list"
  errors :: "string list"

text \<open>
  What the process supplies: the iteration order of a set of strings,
  \<open>json.dumps\<close> (which raises \<open>TypeError\<close> on an object it cannot serialise) and the
  clock reading that names a stored context.
\<close>

record env =
  set_ord :: "string list \<Rightarrow> string list"
  json_dumps :: "val \<Rightarrow> exn + string"
  clock :: string

record service =
  active_workflows :: "string \<rightharpoonup> workflow"
  memory :: memory_graph

definition create_research_plan ::
  "string \<Rightarrow> service \<Rightarrow> string \<Rightarrow> string \<Rightarrow> string \<times> service" where
  "create_research_plan uuid_hex svc query user_id =
     (let new_id = ''plan_'' @ take 8 uuid_hex;
          plan = analyze_query_and_create_plan query user_id;
          workflow_state =
            \<lparr>plan_id = new_id, wf_query = query, wf_user_id = user_id, status = Planning,
             steps = plan, current_step = 0, results = [], errors = []\<rparr>
      in (new_id, svc\<lparr>active_workflows := (active_workflows svc)(new_id \<mapsto> workflow_state)\<rparr>))"

definition check_dependencies :: "step \<Rightarrow> workflow \<Rightarrow> bool" where
  "check_dependencies step w =
     list_all (\<lambda>dep_id. case map_of (results w) dep_id of
                           None \<Rightarrow> False
                         | Some dep_result \<Rightarrow> is_completed dep_result)
              (depends_on step)"

definition execute_search_step ::
  "registry \<Rightarrow> step \<Rightarrow> workflow \<Rightarrow> string \<Rightarrow> exn + step_result" where
  "execute_search_step reg step w user_id =
     (if \<not> check_dependencies step w then Inr (StepSkipped ''Dependencies not met'')
      else case reg ''web_search'' of
             None \<Rightarrow> Inr (StepError ''Web search tool not available'')
           | Some web_search_tool \<Rightarrow>
               (case web_search_tool
                       \<lparr>ti_query = wf_query w, ti_step_id = step_id step, ti_user_id = user_id\<rparr> of
                  Inl e \<Rightarrow> Inl e
                | Inr out \<Rightarrow> Inr (StepCompleted (data out) ''web_search'')))"

definition execute_analysis_step ::
  "registry \<Rightarrow> step \<Rightarrow> workflow \<Rightarrow> string \<Rightarrow> exn + step_result" where
  "execute_analysis_step reg step w user_id =
     (if \<not> check_dependencies step w then Inr (StepSkipped ''Dependencies not met'')
      else case reg ''document_ingestion'' of
             None \<Rightarrow> Inr (StepError ''Document ingestion tool not available'')
           | Some doc_tool \<Rightarrow>
               (case doc_tool
                       \<lparr>ti_query = ''analysis_'' @ take 50 (wf_query w),
                        ti_step_id = step_id step, ti_user_id = user_id\<rparr> of
                  Inl e \<Rightarrow> Inl e
                | Inr out \<Rightarrow> Inr (StepCompleted (data out) ''document_ingestion'')))"

definition hit_val :: "hit \<Rightarrow> val" where
  "hit_val h =
     VDict [(''context_id'', VStr (hit_context_id h)), (''query'', VStr (hit_query h)),
            (''content'', VStr (hit_content h)), (''sources'', hit_sources h),
            (''relevance_score'', VInt (relevance_score h))]"

definition execute_retrieval_step ::
  "memory_graph \<Rightarrow> step \<Rightarrow> workflow \<Rightarrow> string \<Rightarrow> exn + step_result" where
  "execute_retrieval_step mem step w user_id =
     (let context_results = retrieve_context (wf_query w) user_id 5 mem
      in Inr (StepCompleted
                (VDict [(''contexts'', VList (map hit_val context_results)),
                        (''count'', VInt (int (length context_results)))])
                ''memory_service''))"

text \<open>\<open>workflow["results"].get(key, {}).get("result", {})\<close>.\<close>

definition result_of :: "workflow \<Rightarrow> string \<Rightarrow> val" where
  "result_of w key =
     (case map_of (results w) key of
        Some (StepCompleted r t) \<Rightarrow> r
      | _ \<Rightarrow> VDict [])"

definition execute_synthesis_step :: "step \<Rightarrow> workflow \<Rightarrow> string \<Rightarrow> exn + step_result" where
  "execute_synthesis_step step w user_id =
     (let search_result = result_of w ''web_search'';
          analysis_result = result_of w ''document_analysis'';
          retrieval_result = result_of w ''context_retrieval''
      in case val_get retrieval_result ''contexts'' (VList []) of
           Inl e \<Rightarrow> Inl e
         | Inr contexts \<Rightarrow>
             Inr (StepCompleted
                    (VDict [(''query'', VStr (wf_query w)),
                            (''sources'',
                               VDict [(''web_search'', search_result),
                                      (''document_analysis'', analysis_result),
                                      (''retrieved_contexts'', contexts)]),
                            (''status'', VStr ''completed'')])
                    ''workflow_synthesis''))"

text \<open>The step functions, by the step type.\<close>

definition dispatch_step ::
  "registry \<Rightarrow> memory_graph \<Rightarrow> step \<Rightarrow> workflow \<Rightarrow> string \<Rightarrow> exn + step_result" where
  "dispatch_step reg mem step w user_id =
     (if step_type step = ''search'' then execute_search_step reg step w user_id
      else if step_type step = ''analysis'' then execute_analysis_step reg step w user_id
      else if step_type step = ''retrieval'' then execute_retrieval_step mem step w user_id
      else if step_type step = ''synthesis'' then execute_synthesis_step step w user_id
      else Inr (StepError (''Unknown step type: '' @ step_type step)))"

text \<open>
  \<open>_execute_workflow_step\<close>: the dispatch inside \<open>try ... except Exception\<close>.  An
  \<open>Exception\<close> becomes an \<open>error\<close> result; any other \<open>BaseException\<close> propagates.
\<close>

definition execute_workflow_step ::
  "registry \<Rightarrow> memory_graph \<Rightarrow> step \<Rightarrow> workflow \<Rightarrow> string \<Rightarrow> exn + step_result" where
  "execute_workflow_step reg mem step w user_id =
     (case dispatch_step reg mem step w user_id of
        Inl e \<Rightarrow>
          if is_exception e then Inr (StepError (''Step execution failed: '' @ exn_str e))
          else Inl e
      | Inr r \<Rightarrow> Inr r)"

text \<open>
  The \<open>for i, step in enumerate(workflow["steps"])\<close> loop: \<open>i\<close> is the index of the
  first step of the list still to run; an \<open>error\<close> result breaks out of the loop.
  The workflow is mutated in place, so when a step raises, the loop ends with the
  exception and the workflow as it was written so far.
\<close>

fun run_steps ::
  "registry \<Rightarrow> memory_graph \<Rightarrow> string \<Rightarrow> nat \<Rightarrow> step list \<Rightarrow> workflow
     \<Rightarrow> (exn + unit) \<times> workflow" where
  "run_steps reg mem user_id i [] w = (Inr (), w)"
| "run_steps reg mem user_id i (step # rest) w =
     (let w1 = w\<lparr>current_step := i\<rparr>
      in case execute_workflow_step reg mem step w1 user_id of
           Inl e \<Rightarrow> (Inl e, w1)
         | Inr step_result \<Rightarrow>
             (let w2 = w1\<lparr>results := AList.update (step_id step) step_result (results w1)\<rparr>
              in case step_result of
                   StepError e \<Rightarrow>
                     (Inr (),
                      w2\<lparr>errors := errors w2 @ [''Step '' @ step_id step @ '': '' @ e],
                         status := Failed\<rparr>)
                 | _ \<Rightarrow> run_steps reg mem user_id (i + 1) rest w2))"

definition store_workflow_results ::
  "env \<Rightarrow> workflow \<Rightarrow> string \<Rightarrow> memory_graph \<Rightarrow> (exn + unit) \<times> memory_graph" where
  "store_workflow_results ev w user_id mem =
     (let synthesis_result = result_of w ''synthesis''
      in if truthy synthesis_result
         then (case json_dumps ev synthesis_result of
                 Inl e \<Rightarrow> (Inl e, mem)
               | Inr dumped \<Rightarrow>
                   (case val_get synthesis_result ''sources'' (VDict []) of
                      Inl e \<Rightarrow> (Inl e, mem)
                    | Inr srcs \<Rightarrow>
                        (case store_context (set_ord ev) (clock ev) (wf_query w)
                                \<lparr>cd_content = Some dumped, cd_sources = Some srcs\<rparr> user_id mem of
                           (Inl e, mem') \<Rightarrow> (Inl e, mem')
                         | (Inr cid, mem') \<Rightarrow> (Inr (), mem'))))
         else (Inr (), mem))"

text \<open>
  The body of the \<open>try\<close> block of \<open>execute_research_plan\<close>: the loop, then, unless a
  step failed, the status \<open>completed\<close> and the persistence of the results.  It ends
  normally or with an exception, and with the workflow and the memory graph as
  they were written so far.
\<close>

definition try_body ::
  "env \<Rightarrow> registry \<Rightarrow> string \<Rightarrow> workflow \<Rightarrow> memory_graph
     \<Rightarrow> (exn + unit) \<times> workflow \<times> memory_graph" where
  "try_body ev reg user_id w0 mem =
     (case run_steps reg mem user_id 0 (steps w0) w0 of
        (Inl e, w1) \<Rightarrow> (Inl e, w1, mem)
      | (Inr u, w1) \<Rightarrow>
          if status w1 \<noteq> Failed
          then (let w2 = w1\<lparr>status := Completed\<rparr>
                in case store_workflow_results ev w2 user_id mem of
                     (r, mem') \<Rightarrow> (r, w2, mem'))
          else (Inr (), w1, mem))"

text \<open>
  \<open>execute_research_plan\<close> returns the workflow or raises; the service state after
  the call is the second component in both cases.  The handler
  \<open>except Exception as e\<close> marks the workflow as \<open>error\<close>; any other
  \<open>BaseException\<close> propagates to the caller.
\<close>

definition execute_research_plan ::
  "env \<Rightarrow> registry \<Rightarrow> service \<Rightarrow> string \<Rightarrow> string \<Rightarrow> (exn + workflow) \<times> service" where
  "execute_research_plan ev reg svc pid user_id =
     (case active_workflows svc pid of
        None \<Rightarrow> (Inl (ValueError (''Plan '' @ pid @ '' not found'')), svc)
      | Some workflow \<Rightarrow>
          if wf_user_id workflow \<noteq> user_id
          then (Inl (ValueError ''Unauthorized access to workflow''), svc)
          else
            (case try_body ev reg user_id (workflow\<lparr>status := Executing\<rparr>) (memory svc) of
               (Inr u, w, mem) \<Rightarrow>
                 (Inr w, svc\<lparr>active_workflows := (active_workflows svc)(pid \<mapsto> w),
                            memory := mem\<rparr>)
             | (Inl e, w, mem) \<Rightarrow>
                 if is_exception e
                 then (let w' = w\<lparr>status := Error,
                                   errors := errors w @
                                     [''Workflow execution failed: '' @ exn_str e]\<rparr>
                       in (Inr w', svc\<lparr>active_workflows := (active_workflows svc)(pid \<mapsto> w'),
                                       memory := mem\<rparr>))
                 else (Inl e, svc\<lparr>active_workflows := (active_workflows svc)(pid \<mapsto> w),
                                  memory := mem\<rparr>)))"

text \<open>
  The two views.  They return their answer and the service state after the call.
  The float fields (\<open>progress\<close>, \<open>success_rate\<close>) and the timestamps are left out.
\<close>

record status_view =
  sv_plan_id :: string
  sv_query :: string
  sv_status :: plan_status
  sv_current_step :: nat
  sv_total_steps :: nat
  sv_has_errors :: bool
  sv_error_count :: nat

record execution_summary =
  total_steps :: nat
  completed_steps :: nat
  tools_used :: "string set"

record results_view =
  rv_plan_id :: string
  rv_query :: string
  rv_results :: "(string \<times> step_result) list"
  rv_errors :: "string list"
  rv_status :: plan_status
  rv_execution_summary :: execution_summary

definition get_workflow_status ::
  "service \<Rightarrow> string \<Rightarrow> string \<Rightarrow> status_view option \<times> service" where
  "get_workflow_status svc pid user_id =
     (case active_workflows svc pid of
        None \<Rightarrow> (None, svc)
      | Some workflow \<Rightarrow>
          if wf_user_id workflow \<noteq> user_id then (None, svc)
          else (Some \<lparr>sv_plan_id = pid, sv_query = wf_query workflow,
                       sv_status = status workflow,
                       sv_current_step = current_step workflow,
                       sv_total_steps = length (steps workflow),
                       sv_has_errors = (length (errors workflow) > 0),
                       sv_error_count = length (errors workflow)\<rparr>, svc))"

definition create_execution_summary :: "workflow \<Rightarrow> execution_summary" where
  "create_execution_summary workflow =
     \<lparr>total_steps = length (steps workflow),
      completed_steps = length (filter (\<lambda>(k, r). is_completed r) (results workflow)),
      tools_used =
        set (concat (map (\<lambda>(k, r). case r of
                                     StepCompleted v t \<Rightarrow> (if t \<noteq> [] then [t] else [])
                                   | _ \<Rightarrow> [])
                         (results workflow)))\<rparr>"

definition get_workflow_results ::
  "service \<Rightarrow> string \<Rightarrow> string \<Rightarrow> results_view option \<times> service" where
  "get_workflow_results svc pid user_id =
     (case active_workflows svc pid of
        None \<Rightarrow> (None, svc)
      | Some workflow \<Rightarrow>
          if wf_user_id workflow \<noteq> user_id then (None, svc)
          else (Some \<lparr>rv_plan_id = pid, rv_query = wf_query workflow,
                       rv_results = results workflow, rv_errors = errors workflow,
                       rv_status = status workflow,
                       rv_execution_summary = create_execution_summary workflow\<rparr>, svc))"

section \<open>Reference definitions and example states\<close>

text \<open>
  The tokenisation that the specification describes for \<open>retrieveContext\<close> (that of
  concept extraction: lower-case, split on whitespace, discard the tokens of length
  at most 3 or in the stop-word set, de-duplicate, keep at most 10), written from the
  specification's words to be compared with the code.
\<close>

definition spec_tokenize :: "(string list \<Rightarrow> string list) \<Rightarrow> string \<Rightarrow> string list" where
  "spec_tokenize ord s =
     take 10 (ord (filter (\<lambda>w. \<not> (length w \<le> 3 \<or> w \<in> set stop_words)) (split (lower s))))"

definition spec_retrieve_context ::
  "(string list \<Rightarrow> string list) \<Rightarrow> string \<Rightarrow> string \<Rightarrow> int \<Rightarrow> memory_graph \<Rightarrow> hit list" where
  "spec_retrieve_context ord query user_id max_results g =
     retrieve_with_terms (spec_tokenize ord query) user_id max_results g"

definition empty_graph :: memory_graph where
  "empty_graph = \<lparr>nodes = [], edges = []\<rparr>"

text \<open>The graph after one \<open>store_context("the cat", {}, "u1")\<close> on the empty graph.\<close>

definition the_cat_graph :: memory_graph where
  "the_cat_graph =
     snd (store_context remdups ''1'' ''the cat'' \<lparr>cd_content = None, cd_sources = None\<rparr>
            ''u1'' empty_graph)"

text \<open>The graph after storing the same context five times, at five clock readings.\<close>

definition neural_data :: context_data where
  "neural_data = \<lparr>cd_content = Some ''neural nets for vision'', cd_sources = None\<rparr>"

definition five_contexts :: memory_graph where
  "five_contexts =
     fold (\<lambda>now g. snd (store_context remdups now ''neural nets'' neural_data ''u1'' g))
          [''1'', ''2'', ''3'', ''4'', ''5''] empty_graph"

text \<open>
  The invariant of the graph that \<open>store_context\<close> keeps: the keys of the dict are
  distinct, and a context node is never stored under the id of a concept.
\<close>

definition graph_ok :: "memory_graph \<Rightarrow> bool" where
  "graph_ok g =
     (distinct (map fst (nodes g)) \<and>
      list_all (\<lambda>(k, n). case n of
                            Concept name cat f \<Rightarrow> True
                          | ResearchContext q c s u \<Rightarrow> \<not> starts_with ''concept_'' k)
               (nodes g))"

text \<open>
  Example processes: a \<open>json.dumps\<close> that always succeeds and one that always raises,
  an empty registry, a tool that raises an \<open>Exception\<close>, a tool whose call is
  cancelled, and a tool that answers.
\<close>

definition plain_env :: env where
  "plain_env = \<lparr>set_ord = remdups, json_dumps = (\<lambda>v. Inr ''{}''), clock = ''1''\<rparr>"


definition no_tools :: registry where
  "no_tools = Map.empty"



definition echo_tool :: tool where
  "echo_tool = (\<lambda>i. Inr \<lparr>success = True, data = VDict [(''query'', VStr (ti_query i))]\<rparr>)"

definition empty_service :: service where
  "empty_service = \<lparr>active_workflows = Map.empty, memory = empty_graph\<rparr>"

text \<open>The service after one \<open>create_research_plan\<close>, for three queries.\<close>

definition why_service :: service where
  "why_service =
     snd (create_research_plan ''0123456789abcdef'' empty_service ''Why is the sky blue?'' ''u1'')"

definition paper_service :: service where
  "paper_service =
     snd (create_research_plan ''0123456789abcdef'' empty_service
            ''Summarize this research paper'' ''u1'')"

text \<open>\<open>why_service\<close> after the owner has run the plan once with no tool registered.\<close>

definition failed_service :: service where
  "failed_service =
     snd (execute_research_plan plain_env no_tools why_service ''plan_01234567'' ''u1'')"

text \<open>A plan that is running, before its first step, and the same plan once a search
  result has been recorded.\<close>

definition running_plan :: workflow where
  "running_plan =
     \<lparr>plan_id = ''plan_01234567'', wf_query = ''Summarize this research paper'',
      wf_user_id = ''u1'', status = Executing,
      steps = [document_analysis_step, context_retrieval_step, synthesis_step],
      current_step = 0, results = [], errors = []\<rparr>"

definition searched_plan :: workflow where
  "searched_plan =
     running_plan\<lparr>results := [(''web_search'', StepCompleted (VDict []) ''web_search'')]\<rparr>"


text \<open>\<open>why_service\<close> after the owner has run the plan once with a search tool registered.\<close>

definition completed_service :: service where
  "completed_service =
     snd (execute_research_plan plain_env [''web_search'' \<mapsto> echo_tool] why_service
            ''plan_01234567'' ''u1'')"

text \<open>
  The concept node that one pass of the loop of \<open>_create_concept_connections\<close>
  leaves under the id of \<open>concept\<close>, given what the dict held there before.
\<close>

definition mentioned :: "string \<Rightarrow> node option \<Rightarrow> node" where
  "mentioned concept old =
     (case old of
        None \<Rightarrow> Concept concept ''extracted'' 1
      | Some (Concept n c f) \<Rightarrow> Concept n c (f + 1)
      | Some (ResearchContext q c s u) \<Rightarrow> ResearchContext q c s u)"

section \<open>Strings: the operator \<open>in\<close>\<close>

lemma starts_with_iff: "starts_with t s \<longleftrightarrow> (\<exists>post. s = t @ post)"
  by (induction t s rule: starts_with.induct) auto

lemma py_in_iff: "py_in t s \<longleftrightarrow> (\<exists>pre post. s = pre @ t @ post)"
proof (induction s)
  case Nil
  then show ?case by auto
next
  case (Cons c s)
  show ?case
  proof
    assume "py_in t (c # s)"
    then consider "starts_with t (c # s)" | "py_in t s" by auto
    then show "\<exists>pre post. c # s = pre @ t @ post"
    proof cases
      case 1
      then obtain post where "c # s = t @ post" by (auto simp: starts_with_iff)
      then have "c # s = [] @ t @ post" by simp
      then show ?thesis by blast
    next
      case 2
      with Cons obtain pre post where "s = pre @ t @ post" by blast
      then have "c # s = (c # pre) @ t @ post" by simp
      then show ?thesis by blast
    qed
  next
    assume "\<exists>pre post. c # s = pre @ t @ post"
    then obtain pre post where e: "c # s = pre @ t @ post" by blast
    show "py_in t (c # s)"
    proof (cases pre)
      case Nil
      with e have "starts_with t (c # s)" by (auto simp: starts_with_iff)
      then show ?thesis by simp
    next
      case (Cons p pre')
      with e have "s = pre' @ t @ post" by simp
      with Cons.IH have "py_in t s" by blast
      then show ?thesis by simp
    qed
  qed
qed

lemma any_word_in_iff:
  "any_word_in ws s \<longleftrightarrow> (\<exists>word \<in> set ws. \<exists>pre post. s = pre @ word @ post)"
  by (simp add: any_word_in_def list_ex_iff py_in_iff)

section \<open>The planner\<close>

lemma plan_cases:
  "analyze_query_and_create_plan query user_id =
     (if any_word_in search_words (lower query) then [web_search_step] else []) @
     (if any_word_in document_words (lower query) then [document_analysis_step] else []) @
     [context_retrieval_step, synthesis_step]"
  by (simp add: analyze_query_and_create_plan_def)

lemma step_types [simp]:
  "step_type web_search_step = ''search''"
  "step_type document_analysis_step = ''analysis''"
  "step_type context_retrieval_step = ''retrieval''"
  "step_type synthesis_step = ''synthesis''"
  by (simp_all add: web_search_step_def document_analysis_step_def
        context_retrieval_step_def synthesis_step_def)

lemma lower_paper: "lower ''Summarize this research paper'' = ''summarize this research paper''"
  by code_simp

lemma paper_words:
  "\<not> any_word_in search_words (lower ''Summarize this research paper'')"
  "any_word_in document_words (lower ''Summarize this research paper'')"
  by code_simp+

lemma paper_plan: "analyze_query_and_create_plan ''Summarize this research paper'' ''u1'' =
     [document_analysis_step, context_retrieval_step, synthesis_step]"
  by (simp add: plan_cases paper_words)

lemma quantum_words:
  "any_word_in search_words (lower ''What is quantum computing?'')"
  "\<not> any_word_in document_words (lower ''What is quantum computing?'')"
  by code_simp+

text \<open>
  Claim C7.  \<open>create_research_plan\<close> on the query "What is quantum computing?" for the
  owner "u1" stores, under the new plan id, a plan in status \<open>planning\<close> whose steps
  are one search step, one retrieval step and one synthesis step, and no analysis
  step.
\<close>

theorem create_plan_quantum_computing:
  "create_research_plan uuid_hex svc ''What is quantum computing?'' ''u1'' =
     (''plan_'' @ take 8 uuid_hex,
      svc\<lparr>active_workflows := (active_workflows svc)(''plan_'' @ take 8 uuid_hex \<mapsto>
        \<lparr>plan_id = ''plan_'' @ take 8 uuid_hex, wf_query = ''What is quantum computing?'',
         wf_user_id = ''u1'', status = Planning,
         steps = [web_search_step, context_retrieval_step, synthesis_step],
         current_step = 0, results = [], errors = []\<rparr>)\<rparr>) \<and>
   map step_type [web_search_step, context_retrieval_step, synthesis_step] =
     [''search'', ''retrieval'', ''synthesis'']"
  by (simp add: create_research_plan_def plan_cases quantum_words Let_def)

text \<open>
  Claim C4, as stated, fails: for "Summarize this research paper" the plan has no
  search step, and the analysis step still lists \<open>web_search\<close> as its dependency.
\<close>

theorem analysis_depends_on_absent_search:
  "analyze_query_and_create_plan ''Summarize this research paper'' ''u1'' =
     [document_analysis_step, context_retrieval_step, synthesis_step] \<and>
   step_type document_analysis_step = ''analysis'' \<and>
   depends_on document_analysis_step = [''web_search''] \<and>
   ''search'' \<notin> set (map step_type [document_analysis_step, context_retrieval_step, synthesis_step]) \<and>
   ''web_search'' \<notin> set (map step_id [document_analysis_step, context_retrieval_step, synthesis_step])"
  by (simp add: paper_plan) (simp add: document_analysis_step_def context_retrieval_step_def synthesis_step_def)

text \<open>
  Claim C4, amended.  For every query the plan has an analysis step exactly when the
  lower-cased query contains one of the words document, paper, article, study,
  research as a substring; the dependency list of the analysis step is always
  \<open>[web_search]\<close>, whether or not the plan has a search step.
\<close>

theorem analysis_step_rule:
  "((\<exists>s \<in> set (analyze_query_and_create_plan query user_id). step_type s = ''analysis'') \<longleftrightarrow>
      (\<exists>word \<in> set [''document'', ''paper'', ''article'', ''study'', ''research''].
         \<exists>pre post. lower query = pre @ word @ post)) \<and>
   (\<forall>s \<in> set (analyze_query_and_create_plan query user_id).
      step_type s = ''analysis'' \<longrightarrow> depends_on s = [''web_search''])"
proof
  have "(\<exists>s \<in> set (analyze_query_and_create_plan query user_id). step_type s = ''analysis'')
             \<longleftrightarrow> any_word_in document_words (lower query)"
    by (auto simp: plan_cases)
  also have "\<dots> \<longleftrightarrow> (\<exists>word \<in> set document_words. \<exists>pre post. lower query = pre @ word @ post)"
    by (simp only: any_word_in_iff)
  finally show "(\<exists>s \<in> set (analyze_query_and_create_plan query user_id). step_type s = ''analysis'') \<longleftrightarrow>
      (\<exists>word \<in> set [''document'', ''paper'', ''article'', ''study'', ''research''].
         \<exists>pre post. lower query = pre @ word @ post)"
    unfolding document_words_def .
next
  show "\<forall>s \<in> set (analyze_query_and_create_plan query user_id).
      step_type s = ''analysis'' \<longrightarrow> depends_on s = [''web_search'']"
  proof (intro ballI impI)
    fix s
    assume "s \<in> set (analyze_query_and_create_plan query user_id)" "step_type s = ''analysis''"
    then have "s = document_analysis_step"
      by (auto simp: plan_cases split: if_splits)
    then show "depends_on s = [''web_search'']"
      by (simp add: document_analysis_step_def)
  qed
qed

theorem analysis_step_rule_witness:
  "document_analysis_step \<in> set (analyze_query_and_create_plan ''Summarize this research paper'' ''u1'')
   \<and> step_type document_analysis_step = ''analysis''
   \<and> depends_on document_analysis_step = [''web_search'']
   \<and> lower ''Summarize this research paper'' = ''summarize this '' @ ''research'' @ '' paper''"
  using analysis_step_rule [of "''Summarize this research paper''" "''u1''"]
  by (simp add: paper_plan lower_paper)

section \<open>Retrieval from the memory graph\<close>

lemma extract_concepts_spec_tokenize:
  "extract_concepts ord query content = spec_tokenize ord (query @ '' '' @ content)"
  by (simp add: extract_concepts_def spec_tokenize_def not_le)

text \<open>
  Claim C5, as stated, fails: \<open>retrieve_context\<close> only lower-cases and splits its
  query.  The query "the" keeps its one token, which concept extraction would
  discard, and so retrieves the context stored for "the cat" with score 2; with the
  tokens of concept extraction nothing would be retrieved.
\<close>

theorem retrieval_tokens_differ:
  "split (lower ''the'') = [''the''] \<and>
   spec_tokenize remdups ''the'' = [] \<and>
   the_cat_graph = \<lparr>nodes = [(''context_1'', ResearchContext ''the cat'' [] (VList []) ''u1'')],
                     edges = []\<rparr> \<and>
   retrieve_context ''the'' ''u1'' 5 the_cat_graph =
     [\<lparr>hit_context_id = ''context_1'', hit_query = ''the cat'', hit_content = [],
       hit_sources = VList [], relevance_score = 2\<rparr>] \<and>
   spec_retrieve_context remdups ''the'' ''u1'' 5 the_cat_graph = []"
  by code_simp

lemma fold_score:
  "fold (\<lambda>term relevance_score.
             (let relevance_score =
                    (if py_in term content then relevance_score + 1 else relevance_score)
              in if py_in term node_query then relevance_score + 2 else relevance_score))
        terms a
   = a + (\<Sum>term \<leftarrow> terms. (if py_in term content then 1 else 0) +
                              (if py_in term node_query then 2 else 0 :: int))"
  by (induction terms arbitrary: a) (simp_all add: Let_def)

lemma score_terms_sum:
  "score_terms terms content node_query =
     (\<Sum>term \<leftarrow> terms. (if py_in term content then 1 else 0) +
                        (if py_in term node_query then 2 else 0))"
  by (simp add: score_terms_def fold_score)

lemma scan_nodes_hit:
  "h \<in> set (scan_nodes terms user_id ns) \<Longrightarrow>
     (hit_context_id h, ResearchContext (hit_query h) (hit_content h) (hit_sources h) user_id) \<in> set ns \<and>
     relevance_score h = score_terms terms (lower (hit_content h)) (lower (hit_query h)) \<and>
     relevance_score h > 0"
  by (induction terms user_id ns rule: scan_nodes.induct) (auto simp: Let_def split: if_splits)

lemma set_slice_to: "set (slice_to n xs) \<subseteq> set xs"
  by (auto simp: slice_to_def dest: in_set_takeD)

lemma retrieve_with_terms_hit:
  "h \<in> set (retrieve_with_terms terms user_id n g) \<Longrightarrow> h \<in> set (scan_nodes terms user_id (nodes g))"
  using set_slice_to [of n "sort_by_relevance (scan_nodes terms user_id (nodes g))"]
  by (auto simp: retrieve_with_terms_def sort_by_relevance_def)

text \<open>
  Claim C5, amended.  \<open>retrieve_context\<close> tokenises its query by lower-casing and
  splitting on whitespace only.  Every hit it returns is a context node of the
  caller, and its score is the sum over those tokens of 1 if the token occurs in the
  lower-cased content of the node plus 2 if it occurs in the lower-cased stored
  query; the score is positive.
\<close>

theorem retrieval_score_rule:
  "\<forall>h \<in> set (retrieve_context query user_id max_results g).
     (hit_context_id h, ResearchContext (hit_query h) (hit_content h) (hit_sources h) user_id)
        \<in> set (nodes g) \<and>
     relevance_score h =
       (\<Sum>term \<leftarrow> split (lower query).
          (if py_in term (lower (hit_content h)) then 1 else 0) +
          (if py_in term (lower (hit_query h)) then 2 else 0)) \<and>
     relevance_score h > 0"
proof
  fix h
  assume "h \<in> set (retrieve_context query user_id max_results g)"
  then have "h \<in> set (scan_nodes (split (lower query)) user_id (nodes g))"
    by (simp add: retrieve_context_def retrieve_with_terms_hit)
  from scan_nodes_hit [OF this] show
    "(hit_context_id h, ResearchContext (hit_query h) (hit_content h) (hit_sources h) user_id)
        \<in> set (nodes g) \<and>
     relevance_score h =
       (\<Sum>term \<leftarrow> split (lower query).
          (if py_in term (lower (hit_content h)) then 1 else 0) +
          (if py_in term (lower (hit_query h)) then 2 else 0)) \<and>
     relevance_score h > 0"
    by (simp add: score_terms_sum)
qed

lemma the_cat_retrieval:
  "retrieve_context ''the'' ''u1'' 5 the_cat_graph =
     [\<lparr>hit_context_id = ''context_1'', hit_query = ''the cat'', hit_content = [],
       hit_sources = VList [], relevance_score = 2\<rparr>]"
  by code_simp

lemma the_cat_sum:
  "(\<Sum>term \<leftarrow> split (lower ''the'').
          (if py_in term (lower []) then 1 else 0) +
          (if py_in term (lower ''the cat'') then 2 else 0)) = (2::int)"
  by code_simp

theorem retrieval_score_rule_witness:
  "\<lparr>hit_context_id = ''context_1'', hit_query = ''the cat'', hit_content = [],
       hit_sources = VList [], relevance_score = 2\<rparr>
      \<in> set (retrieve_context ''the'' ''u1'' 5 the_cat_graph) \<and>
   (2::int) = (\<Sum>term \<leftarrow> split (lower ''the'').
          (if py_in term (lower []) then 1 else 0) +
          (if py_in term (lower ''the cat'') then 2 else 0))"
  using retrieval_score_rule [of "''the''" "''u1''" 5 the_cat_graph]
  by (simp add: the_cat_retrieval the_cat_sum)

section \<open>The executor\<close>

lemma why_service_plan:
  "active_workflows why_service ''plan_01234567'' =
     Some \<lparr>plan_id = ''plan_01234567'', wf_query = ''Why is the sky blue?'',
            wf_user_id = ''u1'', status = Planning,
            steps = [web_search_step, context_retrieval_step, synthesis_step],
            current_step = 0, results = [], errors = []\<rparr>"
  by code_simp

text \<open>
  Claim C3, as stated, fails: for a caller who is not the owner,
  \<open>get_workflow_status\<close> and \<open>get_workflow_results\<close> return \<open>None\<close> instead of
  failing, and \<open>execute_research_plan\<close> raises a \<open>ValueError\<close>.
\<close>

theorem non_owner_gets_none:
  "map_option wf_user_id (active_workflows why_service ''plan_01234567'') = Some ''u1'' \<and>
   fst (get_workflow_status why_service ''plan_01234567'' ''u2'') = None \<and>
   fst (get_workflow_results why_service ''plan_01234567'' ''u2'') = None \<and>
   fst (execute_research_plan plain_env no_tools why_service ''plan_01234567'' ''u2'') =
     Inl (ValueError ''Unauthorized access to workflow'')"
  by code_simp

text \<open>
  Claim C3, amended.  For every plan in the store and every caller other than its
  owner, \<open>execute_research_plan\<close> raises \<open>ValueError("Unauthorized access to
  workflow")\<close>, and \<open>get_workflow_status\<close> and \<open>get_workflow_results\<close> return
  \<open>None\<close>; each of the three leaves the service state as it was.
\<close>

theorem non_owner_rejected:
  assumes "active_workflows svc pid = Some w" and "wf_user_id w \<noteq> caller"
  shows "execute_research_plan ev reg svc pid caller =
           (Inl (ValueError ''Unauthorized access to workflow''), svc) \<and>
         get_workflow_status svc pid caller = (None, svc) \<and>
         get_workflow_results svc pid caller = (None, svc)"
  using assms
  by (simp add: execute_research_plan_def get_workflow_status_def get_workflow_results_def)

theorem non_owner_rejected_witness:
  "execute_research_plan plain_env no_tools why_service ''plan_01234567'' ''u2'' =
     (Inl (ValueError ''Unauthorized access to workflow''), why_service) \<and>
   get_workflow_status why_service ''plan_01234567'' ''u2'' = (None, why_service) \<and>
   get_workflow_results why_service ''plan_01234567'' ''u2'' = (None, why_service)"
  using non_owner_rejected [OF why_service_plan, of "''u2''" plain_env no_tools]
  by simp

lemma check_dependencies_iff:
  "check_dependencies step w \<longleftrightarrow>
     (\<forall>d \<in> set (depends_on step). \<exists>r t. map_of (results w) d = Some (StepCompleted r t))"
proof -
  have "(case map_of (results w) d of None \<Rightarrow> False | Some x \<Rightarrow> is_completed x) \<longleftrightarrow>
        (\<exists>r t. map_of (results w) d = Some (StepCompleted r t))" for d
  proof (cases "map_of (results w) d")
    case None
    then show ?thesis by simp
  next
    case (Some x)
    then show ?thesis by (cases x) simp_all
  qed
  then show ?thesis by (simp add: check_dependencies_def list_all_iff)
qed

lemma check_dependencies_current_step [simp]:
  "check_dependencies step (w\<lparr>current_step := i\<rparr>) = check_dependencies step w"
  by (simp add: check_dependencies_def)

lemma unmet_search_or_analysis:
  assumes "step_type step = ''search'' \<or> step_type step = ''analysis''"
    and "\<not> check_dependencies step w"
  shows "execute_workflow_step reg mem step w user_id = Inr (StepSkipped ''Dependencies not met'')"
  using assms
  by (auto simp: execute_workflow_step_def dispatch_step_def execute_search_step_def
        execute_analysis_step_def)

lemma completed_search_or_analysis:
  assumes "step_type step = ''search'' \<or> step_type step = ''analysis''"
    and "execute_workflow_step reg mem step w user_id = Inr r" and "is_completed r"
  shows "check_dependencies step w"
proof (rule ccontr)
  assume "\<not> check_dependencies step w"
  from unmet_search_or_analysis [OF assms(1) this, of reg mem user_id] assms(2)
  have "r = StepSkipped ''Dependencies not met''" by simp
  with assms(3) show False by simp
qed

lemma run_steps_skip:
  assumes "execute_workflow_step reg mem step (w\<lparr>current_step := i\<rparr>) user_id =
             Inr (StepSkipped why)"
  shows "run_steps reg mem user_id i (step # rest) w =
           run_steps reg mem user_id (i + 1) rest
             (w\<lparr>current_step := i,
                results := AList.update (step_id step) (StepSkipped why) (results w)\<rparr>)"
  using assms by (simp add: Let_def)

lemma run_steps_completed:
  assumes "execute_workflow_step reg mem step (w\<lparr>current_step := i\<rparr>) user_id =
             Inr (StepCompleted r t)"
  shows "run_steps reg mem user_id i (step # rest) w =
           run_steps reg mem user_id (i + 1) rest
             (w\<lparr>current_step := i,
                results := AList.update (step_id step) (StepCompleted r t) (results w)\<rparr>)"
  using assms by (simp add: Let_def)

lemma run_steps_error:
  assumes "execute_workflow_step reg mem step (w\<lparr>current_step := i\<rparr>) user_id =
             Inr (StepError e)"
  shows "run_steps reg mem user_id i (step # rest) w =
           (Inr (),
            w\<lparr>current_step := i,
               results := AList.update (step_id step) (StepError e) (results w),
               errors := errors w @ [''Step '' @ step_id step @ '': '' @ e],
               status := Failed\<rparr>)"
  using assms by (simp add: Let_def)

lemma run_steps_raise:
  assumes "execute_workflow_step reg mem step (w\<lparr>current_step := i\<rparr>) user_id = Inl e"
  shows "run_steps reg mem user_id i (step # rest) w = (Inl e, w\<lparr>current_step := i\<rparr>)"
  using assms by (simp add: Let_def)

lemma retrieval_ignores_dependencies:
  assumes "step_type step = ''retrieval'' \<or> step_type step = ''synthesis''"
  shows "execute_workflow_step reg mem (step\<lparr>depends_on := ds\<rparr>) w user_id =
         execute_workflow_step reg mem step w user_id"
  using assms
  by (auto simp: execute_workflow_step_def dispatch_step_def execute_retrieval_step_def
        execute_synthesis_step_def)

lemma retrieval_completes:
  assumes "step_type step = ''retrieval''"
  shows "\<exists>r. execute_workflow_step reg mem step w user_id = Inr r \<and> is_completed r"
  using assms
  by (simp add: execute_workflow_step_def dispatch_step_def execute_retrieval_step_def Let_def)

lemma paper_service_plan:
  "active_workflows paper_service ''plan_01234567'' =
     Some \<lparr>plan_id = ''plan_01234567'', wf_query = ''Summarize this research paper'',
            wf_user_id = ''u1'', status = Planning,
            steps = [document_analysis_step, context_retrieval_step, synthesis_step],
            current_step = 0, results = [], errors = []\<rparr>"
  by code_simp

text \<open>
  Claim C1, as stated, fails: the synthesis step never checks its dependencies.  In
  the plan for "Summarize this research paper" the analysis step is skipped, the
  search step does not exist, and the synthesis step, which declares both as
  dependencies, is recorded as completed.
\<close>

theorem synthesis_completes_without_dependencies:
  "map_option (\<lambda>w. (status w, map (\<lambda>(k, r). (k, is_completed r)) (results w)))
     (active_workflows
        (snd (execute_research_plan plain_env no_tools paper_service ''plan_01234567'' ''u1''))
        ''plan_01234567'') =
     Some (Completed,
           [(''document_analysis'', False), (''context_retrieval'', True),
            (''synthesis'', True)]) \<and>
   depends_on synthesis_step = [''web_search'', ''document_analysis'', ''context_retrieval'']"
  by code_simp

text \<open>
  Claim C1, amended.  A search or analysis step is recorded as completed only if
  every step id in its dependency list has a completed result at the time the step
  is executed; when some dependency has not, its result is \<open>skipped\<close> with reason
  "Dependencies not met" and the loop goes on with the next step.  A retrieval step
  is always recorded as completed, and the result of a retrieval or synthesis step
  does not depend on its dependency list.
\<close>

theorem dependency_gate:
  "((step_type step = ''search'' \<or> step_type step = ''analysis'') \<longrightarrow>
      (execute_workflow_step reg mem step (w\<lparr>current_step := i\<rparr>) user_id = Inr r \<and>
       is_completed r \<longrightarrow>
         (\<forall>d \<in> set (depends_on step).
            \<exists>r t. map_of (results w) d = Some (StepCompleted r t))) \<and>
      (\<not> (\<forall>d \<in> set (depends_on step).
            \<exists>r t. map_of (results w) d = Some (StepCompleted r t)) \<longrightarrow>
         execute_workflow_step reg mem step (w\<lparr>current_step := i\<rparr>) user_id =
           Inr (StepSkipped ''Dependencies not met'') \<and>
         run_steps reg mem user_id i (step # rest) w =
           run_steps reg mem user_id (i + 1) rest
             (w\<lparr>current_step := i,
                results := AList.update (step_id step) (StepSkipped ''Dependencies not met'')
                             (results w)\<rparr>))) \<and>
   (step_type step = ''retrieval'' \<longrightarrow>
      (\<exists>r. execute_workflow_step reg mem step (w\<lparr>current_step := i\<rparr>) user_id = Inr r \<and>
           is_completed r)) \<and>
   ((step_type step = ''retrieval'' \<or> step_type step = ''synthesis'') \<longrightarrow>
      execute_workflow_step reg mem (step\<lparr>depends_on := ds\<rparr>) (w\<lparr>current_step := i\<rparr>) user_id =
      execute_workflow_step reg mem step (w\<lparr>current_step := i\<rparr>) user_id)"
proof (intro conjI impI)
  assume t: "step_type step = ''search'' \<or> step_type step = ''analysis''"
  { assume "execute_workflow_step reg mem step (w\<lparr>current_step := i\<rparr>) user_id = Inr r \<and>
       is_completed r"
    then have "check_dependencies step (w\<lparr>current_step := i\<rparr>)"
      using completed_search_or_analysis [OF t] by blast
    then show "\<forall>d \<in> set (depends_on step). \<exists>r t. map_of (results w) d = Some (StepCompleted r t)"
      by (simp add: check_dependencies_iff) }
  { assume "\<not> (\<forall>d \<in> set (depends_on step).
            \<exists>r t. map_of (results w) d = Some (StepCompleted r t))"
    then have n: "\<not> check_dependencies step (w\<lparr>current_step := i\<rparr>)"
      by (simp add: check_dependencies_iff)
    from unmet_search_or_analysis [OF t n]
    show s: "execute_workflow_step reg mem step (w\<lparr>current_step := i\<rparr>) user_id =
           Inr (StepSkipped ''Dependencies not met'')" .
    from run_steps_skip [OF s]
    show "run_steps reg mem user_id i (step # rest) w =
           run_steps reg mem user_id (i + 1) rest
             (w\<lparr>current_step := i,
                results := AList.update (step_id step) (StepSkipped ''Dependencies not met'')
                             (results w)\<rparr>)" . }
next
  assume "step_type step = ''retrieval''"
  then show "\<exists>r. execute_workflow_step reg mem step (w\<lparr>current_step := i\<rparr>) user_id = Inr r \<and>
           is_completed r"
    by (rule retrieval_completes)
next
  assume "step_type step = ''retrieval'' \<or> step_type step = ''synthesis''"
  then show "execute_workflow_step reg mem (step\<lparr>depends_on := ds\<rparr>) (w\<lparr>current_step := i\<rparr>) user_id =
      execute_workflow_step reg mem step (w\<lparr>current_step := i\<rparr>) user_id"
    by (rule retrieval_ignores_dependencies)
qed

theorem dependency_gate_witness:
  "execute_workflow_step no_tools empty_graph document_analysis_step
     (running_plan\<lparr>current_step := 0\<rparr>) ''u1'' = Inr (StepSkipped ''Dependencies not met'') \<and>
   map_of (results running_plan) ''web_search'' = None \<and>
   map_sum id is_completed
     (execute_workflow_step [''document_ingestion'' \<mapsto> echo_tool] empty_graph
        document_analysis_step (searched_plan\<lparr>current_step := 0\<rparr>) ''u1'') = Inr True \<and>
   map_of (results searched_plan) ''web_search'' = Some (StepCompleted (VDict []) ''web_search'') \<and>
   map_sum id is_completed
     (execute_workflow_step no_tools empty_graph context_retrieval_step
        (running_plan\<lparr>current_step := 1\<rparr>) ''u1'') = Inr True"
proof -
  have a: "step_type document_analysis_step = ''analysis''"
    and d: "depends_on document_analysis_step = [''web_search'']"
    by (simp_all add: document_analysis_step_def)
  have r: "step_type context_retrieval_step = ''retrieval''" by simp
  have n: "map_of (results running_plan) ''web_search'' = None"
    by (simp add: running_plan_def)
  have s: "map_of (results searched_plan) ''web_search'' =
             Some (StepCompleted (VDict []) ''web_search'')"
    by (simp add: searched_plan_def)
  have c: "map_sum id is_completed
     (execute_workflow_step [''document_ingestion'' \<mapsto> echo_tool] empty_graph
        document_analysis_step (searched_plan\<lparr>current_step := 0\<rparr>) ''u1'') = Inr True"
    by code_simp
  have "execute_workflow_step no_tools empty_graph document_analysis_step
     (running_plan\<lparr>current_step := 0\<rparr>) ''u1'' = Inr (StepSkipped ''Dependencies not met'')"
    using dependency_gate [where step = document_analysis_step and reg = no_tools
        and mem = empty_graph and w = running_plan and i = 0 and user_id = "''u1''"]
      a d n by simp
  moreover have "map_sum id is_completed
     (execute_workflow_step no_tools empty_graph context_retrieval_step
        (running_plan\<lparr>current_step := 1\<rparr>) ''u1'') = Inr True"
  proof -
    from dependency_gate [where step = context_retrieval_step and reg = no_tools
        and mem = empty_graph and w = running_plan and i = 1 and user_id = "''u1''"
        and ds = "[]"] r
    obtain x where "execute_workflow_step no_tools empty_graph context_retrieval_step
        (running_plan\<lparr>current_step := 1\<rparr>) ''u1'' = Inr x" and "is_completed x"
      by auto
    then show ?thesis by simp
  qed
  ultimately show ?thesis using n s c by simp
qed

lemma execute_workflow_step_cases:
  "(\<exists>r. execute_workflow_step reg mem step w u = Inr r) \<or>
   (\<exists>e. execute_workflow_step reg mem step w u = Inl e \<and> \<not> is_exception e \<and>
        dispatch_step reg mem step w u = Inl e)"
  by (cases "dispatch_step reg mem step w u") (auto simp: execute_workflow_step_def)

lemma run_steps_frame:
  "steps (snd (run_steps reg mem u i ss w)) = steps w \<and>
   wf_query (snd (run_steps reg mem u i ss w)) = wf_query w \<and>
   wf_user_id (snd (run_steps reg mem u i ss w)) = wf_user_id w \<and>
   plan_id (snd (run_steps reg mem u i ss w)) = plan_id w"
  by (induction ss arbitrary: w i)
     (simp_all add: Let_def split: step_result.splits sum.splits)

lemma run_steps_untouched:
  "k \<notin> step_id ` set ss \<Longrightarrow>
     map_of (results (snd (run_steps reg mem u i ss w))) k = map_of (results w) k"
  by (induction ss arbitrary: w i)
     (simp_all add: Let_def update_conv' split: step_result.splits sum.splits)

text \<open>
  The three ways the loop ends: every step has a result that is not an error; or
  the step that failed has an error result, which is also the message appended to
  the error list; or a step raised something that is not an \<open>Exception\<close>.
\<close>

lemma run_steps_outcome:
  "(fst (run_steps reg mem u i ss w) = Inr () \<and>
    status (snd (run_steps reg mem u i ss w)) = status w \<and>
    errors (snd (run_steps reg mem u i ss w)) = errors w \<and>
    (\<forall>s \<in> set ss. \<exists>x. map_of (results (snd (run_steps reg mem u i ss w))) (step_id s) = Some x \<and>
                          (\<forall>e. x \<noteq> StepError e))) \<or>
   (fst (run_steps reg mem u i ss w) = Inr () \<and>
    status (snd (run_steps reg mem u i ss w)) = Failed \<and>
    (\<exists>s \<in> set ss. \<exists>e.
       map_of (results (snd (run_steps reg mem u i ss w))) (step_id s) = Some (StepError e) \<and>
       errors (snd (run_steps reg mem u i ss w)) =
         errors w @ [''Step '' @ step_id s @ '': '' @ e])) \<or>
   (\<exists>e. fst (run_steps reg mem u i ss w) = Inl e \<and> \<not> is_exception e \<and>
        status (snd (run_steps reg mem u i ss w)) = status w \<and>
        errors (snd (run_steps reg mem u i ss w)) = errors w)"
proof (induction ss arbitrary: w i)
  case Nil
  then show ?case by simp
next
  case (Cons s ss)
  define w1 where "w1 = w\<lparr>current_step := i\<rparr>"
  from execute_workflow_step_cases [of reg mem s w1 u] show ?case
  proof
    assume "\<exists>x. execute_workflow_step reg mem s w1 u = Inr x"
    then obtain x where x: "execute_workflow_step reg mem s w1 u = Inr x" by blast
    define w2 where "w2 = w1\<lparr>results := AList.update (step_id s) x (results w1)\<rparr>"
    show ?thesis
    proof (cases "\<exists>e. x = StepError e")
      case True
      then obtain e where e: "x = StepError e" by blast
      then have r: "run_steps reg mem u i (s # ss) w =
          (Inr (), w2\<lparr>errors := errors w2 @ [''Step '' @ step_id s @ '': '' @ e],
                      status := Failed\<rparr>)"
        using x by (simp add: Let_def w1_def w2_def)
      have "map_of (results w2) (step_id s) = Some (StepError e)"
        by (simp add: w2_def e update_conv')
      moreover have "errors w2 = errors w" by (simp add: w2_def w1_def)
      ultimately show ?thesis unfolding r by simp
    next
      case False
      then have r: "run_steps reg mem u i (s # ss) w = run_steps reg mem u (i + 1) ss w2"
        using x by (cases x) (simp_all add: Let_def w1_def w2_def)
      have w2: "status w2 = status w" "errors w2 = errors w"
        by (simp_all add: w2_def w1_def)
      have here: "map_of (results w2) (step_id s) = Some x"
        by (simp add: w2_def update_conv')
      let ?r = "run_steps reg mem u (i + 1) ss w2"
      from Cons.IH [of "i + 1" w2]
      consider
        (ok) "fst ?r = Inr () \<and> status (snd ?r) = status w2 \<and> errors (snd ?r) = errors w2 \<and>
          (\<forall>s \<in> set ss. \<exists>x. map_of (results (snd ?r)) (step_id s) = Some x \<and>
                            (\<forall>e. x \<noteq> StepError e))"
      | (failed) "fst ?r = Inr () \<and> status (snd ?r) = Failed \<and>
          (\<exists>s \<in> set ss. \<exists>e.
             map_of (results (snd ?r)) (step_id s) = Some (StepError e) \<and>
             errors (snd ?r) = errors w2 @ [''Step '' @ step_id s @ '': '' @ e])"
      | (raised) "\<exists>e. fst ?r = Inl e \<and> \<not> is_exception e \<and>
          status (snd ?r) = status w2 \<and> errors (snd ?r) = errors w2"
        by blast
      then show ?thesis
      proof cases
        case ok
        have "\<exists>y. map_of (results (snd ?r)) (step_id s) = Some y \<and> (\<forall>e. y \<noteq> StepError e)"
        proof (cases "step_id s \<in> step_id ` set ss")
          case True
          then obtain s' where "s' \<in> set ss" "step_id s' = step_id s" by auto
          with ok show ?thesis by metis
        next
          case False
          from run_steps_untouched [OF this] here \<open>\<not> (\<exists>e. x = StepError e)\<close>
          show ?thesis by simp
        qed
        with ok w2 show ?thesis unfolding r by simp
      next
        case failed
        with w2 show ?thesis unfolding r by auto
      next
        case raised
        with w2 show ?thesis unfolding r by auto
      qed
    qed
  next
    assume "\<exists>e. execute_workflow_step reg mem s w1 u = Inl e \<and> \<not> is_exception e \<and>
        dispatch_step reg mem s w1 u = Inl e"
    then obtain e where e: "execute_workflow_step reg mem s w1 u = Inl e" "\<not> is_exception e"
      by blast
    then have "run_steps reg mem u i (s # ss) w = (Inl e, w1)"
      by (simp add: Let_def w1_def)
    with e show ?thesis by (simp add: w1_def)
  qed
qed

lemma store_workflow_results_reads:
  "store_workflow_results ev (w\<lparr>status := st\<rparr>) u mem = store_workflow_results ev w u mem"
  "store_workflow_results ev (w\<lparr>errors := es\<rparr>) u mem = store_workflow_results ev w u mem"
  by (simp_all add: store_workflow_results_def result_of_def Let_def
        cong: sum.case_cong prod.case_cong)

lemma run_steps_raises_no_exception:
  "run_steps reg mem u i ss w = (Inl e, w1) \<Longrightarrow> \<not> is_exception e"
  using run_steps_outcome [of reg mem u i ss w] by auto

text \<open>What a call by the owner does, in terms of the loop and of the persistence step.\<close>

lemma execute_by_owner:
  assumes "active_workflows svc pid = Some w" and "wf_user_id w = caller"
    and "run_steps reg (memory svc) caller 0 (steps w) (w\<lparr>status := Executing\<rparr>) = (r, w1)"
  shows "execute_research_plan ev reg svc pid caller =
     (case r of
        Inl e \<Rightarrow> (Inl e, svc\<lparr>active_workflows := (active_workflows svc)(pid \<mapsto> w1)\<rparr>)
      | Inr u \<Rightarrow>
          if status w1 = Failed
          then (Inr w1, svc\<lparr>active_workflows := (active_workflows svc)(pid \<mapsto> w1)\<rparr>)
          else case store_workflow_results ev w1 caller (memory svc) of
                 (Inr x, mem') \<Rightarrow>
                   (Inr (w1\<lparr>status := Completed\<rparr>),
                    svc\<lparr>active_workflows :=
                          (active_workflows svc)(pid \<mapsto> w1\<lparr>status := Completed\<rparr>),
                        memory := mem'\<rparr>)
               | (Inl e, mem') \<Rightarrow>
                   if is_exception e
                   then (Inr (w1\<lparr>status := Error,
                                errors := errors w1 @
                                  [''Workflow execution failed: '' @ exn_str e]\<rparr>),
                         svc\<lparr>active_workflows := (active_workflows svc)(pid \<mapsto>
                               w1\<lparr>status := Error,
                                  errors := errors w1 @
                                    [''Workflow execution failed: '' @ exn_str e]\<rparr>),
                             memory := mem'\<rparr>)
                   else (Inl e,
                         svc\<lparr>active_workflows :=
                               (active_workflows svc)(pid \<mapsto> w1\<lparr>status := Completed\<rparr>),
                             memory := mem'\<rparr>))"
proof (cases r)
  case (Inl e)
  with assms(3) have "\<not> is_exception e"
    using run_steps_raises_no_exception by blast
  with assms Inl show ?thesis
    by (simp add: execute_research_plan_def try_body_def)
next
  case (Inr u)
  obtain x mem' where st: "store_workflow_results ev w1 caller (memory svc) = (x, mem')"
    by (cases "store_workflow_results ev w1 caller (memory svc)")
  with assms Inr show ?thesis
    by (cases x)
       (simp_all add: execute_research_plan_def try_body_def Let_def
          store_workflow_results_reads)
qed

lemma plan_starts_with_search:
  assumes "web_search_step \<in> set (analyze_query_and_create_plan query owner)"
  shows "\<exists>rest. analyze_query_and_create_plan query owner = web_search_step # rest"
proof (cases "any_word_in search_words (lower query)")
  case True
  then show ?thesis by (simp add: plan_cases)
next
  case False
  have "step_id web_search_step \<noteq> step_id document_analysis_step"
    "step_id web_search_step \<noteq> step_id context_retrieval_step"
    "step_id web_search_step \<noteq> step_id synthesis_step"
    by (simp_all add: web_search_step_def document_analysis_step_def
          context_retrieval_step_def synthesis_step_def)
  then have "web_search_step \<noteq> document_analysis_step"
    "web_search_step \<noteq> context_retrieval_step" "web_search_step \<noteq> synthesis_step"
    by auto
  with assms False show ?thesis by (auto simp: plan_cases split: if_splits)
qed

lemma search_without_tool:
  assumes "reg ''web_search'' = None"
  shows "execute_workflow_step reg mem web_search_step w user_id =
           Inr (StepError ''Web search tool not available'')"
  using assms
  by (simp add: execute_workflow_step_def dispatch_step_def execute_search_step_def
        check_dependencies_def web_search_step_def)

text \<open>
  Claim C6.  When the plan has a search step and no tool named \<open>web_search\<close> is
  registered, executing the plan records the result \<open>error\<close> for the search step,
  sets the plan to \<open>failed\<close> and appends one message to the error list.  No later
  step runs: only the result of the search step is written, the step counter stays
  at 0, and the memory graph is unchanged.
\<close>

theorem missing_search_tool_fails_plan:
  assumes "active_workflows svc pid = Some w" and "wf_user_id w = caller"
    and "steps w = analyze_query_and_create_plan query owner"
    and "web_search_step \<in> set (steps w)"
    and "reg ''web_search'' = None"
  shows "\<exists>w'.
     execute_research_plan ev reg svc pid caller =
       (Inr w', svc\<lparr>active_workflows := (active_workflows svc)(pid \<mapsto> w')\<rparr>) \<and>
     map_of (results w') ''web_search'' = Some (StepError ''Web search tool not available'') \<and>
     status w' = Failed \<and>
     errors w' = errors w @ [''Step web_search: Web search tool not available''] \<and>
     length (errors w') \<ge> 1 \<and>
     results w' =
       AList.update ''web_search'' (StepError ''Web search tool not available'') (results w) \<and>
     current_step w' = 0"
proof -
  from assms(3,4) obtain rest where st: "steps w = web_search_step # rest"
    using plan_starts_with_search [of query owner] by auto
  have id: "step_id web_search_step = ''web_search''"
    by (simp add: web_search_step_def)
  have run: "run_steps reg (memory svc) caller 0 (steps w) (w\<lparr>status := Executing\<rparr>) =
      (Inr (),
       w\<lparr>status := Executing, current_step := 0,
         results := AList.update ''web_search'' (StepError ''Web search tool not available'')
                      (results w),
         errors := errors w @ [''Step web_search: Web search tool not available''],
         status := Failed\<rparr>)"
  proof -
    have "execute_workflow_step reg (memory svc) web_search_step
            (w\<lparr>status := Executing, current_step := 0\<rparr>) caller =
          Inr (StepError ''Web search tool not available'')"
      using assms(5) by (rule search_without_tool)
    from run_steps_error [OF this, of rest] show ?thesis
      unfolding st by (simp add: id)
  qed
  show ?thesis
    using execute_by_owner [OF assms(1,2) run, of ev]
    by (simp add: update_conv')
qed


lemma why_plan:
  "analyze_query_and_create_plan ''Why is the sky blue?'' ''u1'' =
     [web_search_step, context_retrieval_step, synthesis_step]"
  by code_simp

lemma why_without_tools:
  "map_sum id (\<lambda>w'. (status w', results w', errors w', current_step w'))
     (fst (execute_research_plan plain_env no_tools why_service ''plan_01234567'' ''u1'')) =
     Inr (Failed, [(''web_search'', StepError ''Web search tool not available'')],
          [''Step web_search: Web search tool not available''], 0)"
  "memory (snd (execute_research_plan plain_env no_tools why_service ''plan_01234567'' ''u1'')) =
     empty_graph"
  by code_simp+

theorem missing_search_tool_fails_plan_witness:
  "map_sum id (\<lambda>w'. (status w', results w', errors w', current_step w'))
     (fst (execute_research_plan plain_env no_tools why_service ''plan_01234567'' ''u1'')) =
     Inr (Failed, [(''web_search'', StepError ''Web search tool not available'')],
          [''Step web_search: Web search tool not available''], 0) \<and>
   memory (snd (execute_research_plan plain_env no_tools why_service ''plan_01234567'' ''u1'')) =
     empty_graph"
proof -
  let ?w = "\<lparr>plan_id = ''plan_01234567'', wf_query = ''Why is the sky blue?'',
            wf_user_id = ''u1'', status = Planning,
            steps = [web_search_step, context_retrieval_step, synthesis_step],
            current_step = 0, results = [], errors = []\<rparr>"
  have s: "steps ?w = analyze_query_and_create_plan ''Why is the sky blue?'' ''u1''"
    by (simp add: why_plan)
  have m: "web_search_step \<in> set (steps ?w)" by simp
  have n: "no_tools ''web_search'' = None" by (simp add: no_tools_def)
  have u: "wf_user_id ?w = ''u1''" by simp
  from missing_search_tool_fails_plan
         [where svc = why_service and w = ?w and caller = "''u1''" and reg = no_tools
            and ev = plain_env, OF why_service_plan u s m n]
  show ?thesis by (simp only: why_without_tools simp_thms)
qed








lemma run_steps_errors_prefix:
  "prefix (errors w) (errors (snd (run_steps reg mem u i ss w)))"
  using run_steps_outcome [of reg mem u i ss w] by auto

lemma execute_ignores_status:
  assumes "active_workflows svc pid = Some w"
  shows "execute_research_plan ev reg
           (svc\<lparr>active_workflows := (active_workflows svc)(pid \<mapsto> w\<lparr>status := st\<rparr>)\<rparr>)
           pid (wf_user_id w) =
         execute_research_plan ev reg svc pid (wf_user_id w)"
  using assms
  by (simp add: execute_research_plan_def split: prod.splits sum.splits)

lemma ex3I: "P a b c \<Longrightarrow> \<exists>x y z. P x y z"
  by blast

text \<open>
  Claim C2, as stated, fails: \<open>execute_research_plan\<close> has no guard on the status.  A
  second call by the owner on a plan that is \<open>failed\<close> runs the plan again and
  appends a second message to its error list, or completes it once the tool is
  registered; a call on a plan that is \<open>completed\<close> runs it again too, and here
  leaves it \<open>failed\<close>.
\<close>

theorem failed_plan_runs_again:
  "map_option (\<lambda>w. (status w, errors w)) (active_workflows failed_service ''plan_01234567'') =
     Some (Failed, [''Step web_search: Web search tool not available'']) \<and>
   map_option (\<lambda>w. (status w, errors w))
     (active_workflows
        (snd (execute_research_plan plain_env no_tools failed_service ''plan_01234567'' ''u1''))
        ''plan_01234567'') =
     Some (Failed, [''Step web_search: Web search tool not available'',
                    ''Step web_search: Web search tool not available'']) \<and>
   map_option (\<lambda>w. (status w, errors w))
     (active_workflows
        (snd (execute_research_plan plain_env [''web_search'' \<mapsto> echo_tool] failed_service
                ''plan_01234567'' ''u1''))
        ''plan_01234567'') =
     Some (Completed, [''Step web_search: Web search tool not available'']) \<and>
   map_option (\<lambda>w. (status w, errors w, map fst (results w)))
     (active_workflows completed_service ''plan_01234567'') =
     Some (Completed, [], [''web_search'', ''context_retrieval'', ''synthesis'']) \<and>
   map_option (\<lambda>w. (status w, errors w, map (\<lambda>(k, r). (k, is_completed r)) (results w)))
     (active_workflows
        (snd (execute_research_plan plain_env no_tools completed_service ''plan_01234567'' ''u1''))
        ''plan_01234567'') =
     Some (Failed, [''Step web_search: Web search tool not available''],
           [(''web_search'', False), (''context_retrieval'', True), (''synthesis'', True)])"
  by code_simp

text \<open>
  Claim C2, amended.  No status is final for \<open>execute_research_plan\<close>: a call by the
  owner runs the plan again whatever its status.  The outcome of the call does not
  depend on the stored status; the step results of the stored plan afterwards are
  those that the loop computes from the plan set to \<open>executing\<close>; the plan keeps its
  id, query, owner and steps and keeps its earlier error messages as a prefix of the
  error list; every other plan is left alone; and the plan ends in one of
  \<open>completed\<close>, \<open>failed\<close>, \<open>error\<close> when the call returns, or in \<open>executing\<close> or
  \<open>completed\<close> when the call propagates a \<open>BaseException\<close> that is not an
  \<open>Exception\<close>.  The other operations (a call of \<open>execute_research_plan\<close> by anyone
  else, \<open>get_workflow_status\<close>, \<open>get_workflow_results\<close>, and
  \<open>create_research_plan\<close> under another id) leave the plan unchanged.
\<close>

theorem rerun_of_plan:
  assumes "active_workflows svc pid = Some w"
  shows
    "execute_research_plan ev reg
       (svc\<lparr>active_workflows := (active_workflows svc)(pid \<mapsto> w\<lparr>status := st\<rparr>)\<rparr>)
       pid (wf_user_id w) =
     execute_research_plan ev reg svc pid (wf_user_id w) \<and>
     (\<exists>r w' svc'.
        execute_research_plan ev reg svc pid (wf_user_id w) = (r, svc') \<and>
        active_workflows svc' = (active_workflows svc)(pid \<mapsto> w') \<and>
        results w' =
          results (snd (run_steps reg (memory svc) (wf_user_id w) 0 (steps w)
                          (w\<lparr>status := Executing\<rparr>))) \<and>
        current_step w' =
          current_step (snd (run_steps reg (memory svc) (wf_user_id w) 0 (steps w)
                               (w\<lparr>status := Executing\<rparr>))) \<and>
        plan_id w' = plan_id w \<and> wf_query w' = wf_query w \<and>
        wf_user_id w' = wf_user_id w \<and> steps w' = steps w \<and>
        prefix (errors w) (errors w') \<and>
        (r = Inr w' \<and> (status w' = Completed \<or> status w' = Failed \<or> status w' = Error) \<or>
         (\<exists>z. r = Inl z \<and> \<not> is_exception z \<and>
              (status w' = Executing \<or> status w' = Completed)))) \<and>
     (wf_user_id w \<noteq> caller \<longrightarrow>
        snd (execute_research_plan ev reg svc pid caller) = svc) \<and>
     snd (get_workflow_status svc pid caller) = svc \<and>
     snd (get_workflow_results svc pid caller) = svc \<and>
     (''plan_'' @ take 8 uuid_hex \<noteq> pid \<longrightarrow>
        active_workflows (snd (create_research_plan uuid_hex svc query user_id)) pid = Some w)"
proof (intro conjI impI)
  show "execute_research_plan ev reg
       (svc\<lparr>active_workflows := (active_workflows svc)(pid \<mapsto> w\<lparr>status := st\<rparr>)\<rparr>)
       pid (wf_user_id w) =
     execute_research_plan ev reg svc pid (wf_user_id w)"
    using assms by (rule execute_ignores_status)
next
  let ?u = "wf_user_id w"
  let ?run = "run_steps reg (memory svc) ?u 0 (steps w) (w\<lparr>status := Executing\<rparr>)"
  obtain r0 w1 where run: "?run = (r0, w1)" by (cases ?run)
  note ex = execute_by_owner [OF assms refl run, of ev]
  have fr: "steps w1 = steps w" "wf_query w1 = wf_query w" "wf_user_id w1 = wf_user_id w"
    "plan_id w1 = plan_id w"
    using run_steps_frame [of reg "memory svc" ?u 0 "steps w" "w\<lparr>status := Executing\<rparr>"] run
    by simp_all
  have pr: "prefix (errors w) (errors w1)"
    using run_steps_errors_prefix [of "w\<lparr>status := Executing\<rparr>" reg "memory svc" ?u 0 "steps w"]
      run by simp
  from run_steps_outcome [of reg "memory svc" ?u 0 "steps w" "w\<lparr>status := Executing\<rparr>"] run
  consider
    (ok) "r0 = Inr ()" "status w1 = Executing"
  | (failed) "r0 = Inr ()" "status w1 = Failed"
  | (raised) z where "r0 = Inl z" "\<not> is_exception z" "status w1 = Executing"
    by auto
  then show "\<exists>r w' svc'.
        execute_research_plan ev reg svc pid ?u = (r, svc') \<and>
        active_workflows svc' = (active_workflows svc)(pid \<mapsto> w') \<and>
        results w' = results (snd ?run) \<and>
        current_step w' = current_step (snd ?run) \<and>
        plan_id w' = plan_id w \<and> wf_query w' = wf_query w \<and>
        wf_user_id w' = wf_user_id w \<and> steps w' = steps w \<and>
        prefix (errors w) (errors w') \<and>
        (r = Inr w' \<and> (status w' = Completed \<or> status w' = Failed \<or> status w' = Error) \<or>
         (\<exists>z. r = Inl z \<and> \<not> is_exception z \<and>
              (status w' = Executing \<or> status w' = Completed)))"
  proof cases
    case ok
    obtain x m where st: "store_workflow_results ev w1 ?u (memory svc) = (x, m)"
      by (cases "store_workflow_results ev w1 ?u (memory svc)")
    show ?thesis
    proof (cases x)
      case (Inl z)
      show ?thesis
      proof (cases "is_exception z")
        case True
        with ex ok st Inl fr pr run show ?thesis
          by (intro ex3I [where a = "fst (execute_research_plan ev reg svc pid (wf_user_id w))"
                and c = "snd (execute_research_plan ev reg svc pid (wf_user_id w))" and b = "w1\<lparr>status := Error,
                errors := errors w1 @ [''Workflow execution failed: '' @ exn_str z]\<rparr>"])
             simp
      next
        case False
        with ex ok st Inl fr pr run show ?thesis
          by (intro ex3I [where a = "fst (execute_research_plan ev reg svc pid (wf_user_id w))"
                and c = "snd (execute_research_plan ev reg svc pid (wf_user_id w))" and b = "w1\<lparr>status := Completed\<rparr>"]) simp
      qed
    next
      case (Inr u)
      with ex ok st fr pr run show ?thesis
        by (intro ex3I [where a = "fst (execute_research_plan ev reg svc pid (wf_user_id w))"
                and c = "snd (execute_research_plan ev reg svc pid (wf_user_id w))" and b = "w1\<lparr>status := Completed\<rparr>"]) simp
    qed
  next
    case failed
    with ex fr pr run show ?thesis
      by (intro ex3I [where a = "fst (execute_research_plan ev reg svc pid (wf_user_id w))"
                and c = "snd (execute_research_plan ev reg svc pid (wf_user_id w))" and b = w1]) simp
  next
    case raised
    with ex fr pr run show ?thesis
      by (intro ex3I [where a = "fst (execute_research_plan ev reg svc pid (wf_user_id w))"
                and c = "snd (execute_research_plan ev reg svc pid (wf_user_id w))" and b = w1]) simp
  qed
next
  assume "wf_user_id w \<noteq> caller"
  with assms show "snd (execute_research_plan ev reg svc pid caller) = svc"
    by (simp add: execute_research_plan_def)
next
  show "snd (get_workflow_status svc pid caller) = svc"
    by (simp add: get_workflow_status_def split: option.splits)
next
  show "snd (get_workflow_results svc pid caller) = svc"
    by (simp add: get_workflow_results_def split: option.splits)
next
  assume "''plan_'' @ take 8 uuid_hex \<noteq> pid"
  with assms
  show "active_workflows (snd (create_research_plan uuid_hex svc query user_id)) pid = Some w"
    by (simp add: create_research_plan_def Let_def)
qed


lemma failed_service_plan:
  "active_workflows failed_service ''plan_01234567'' =
     Some \<lparr>plan_id = ''plan_01234567'', wf_query = ''Why is the sky blue?'',
            wf_user_id = ''u1'', status = Failed,
            steps = [web_search_step, context_retrieval_step, synthesis_step],
            current_step = 0,
            results = [(''web_search'', StepError ''Web search tool not available'')],
            errors = [''Step web_search: Web search tool not available'']\<rparr>"
  by code_simp

lemma failed_service_rerun:
  "map_sum id (\<lambda>w'. (status w', errors w'))
     (fst (execute_research_plan plain_env no_tools failed_service ''plan_01234567'' ''u1'')) =
     Inr (Failed, [''Step web_search: Web search tool not available'',
                   ''Step web_search: Web search tool not available''])"
  by code_simp

theorem rerun_of_plan_witness:
  "map_option status (active_workflows failed_service ''plan_01234567'') = Some Failed \<and>
   map_sum id (\<lambda>w'. (status w', errors w'))
     (fst (execute_research_plan plain_env no_tools failed_service ''plan_01234567'' ''u1'')) =
     Inr (Failed, [''Step web_search: Web search tool not available'',
                   ''Step web_search: Web search tool not available'']) \<and>
   snd (execute_research_plan plain_env no_tools failed_service ''plan_01234567'' ''u2'') =
     failed_service \<and>
   snd (get_workflow_status failed_service ''plan_01234567'' ''u1'') = failed_service \<and>
   snd (get_workflow_results failed_service ''plan_01234567'' ''u1'') = failed_service \<and>
   map_option status
     (active_workflows
        (snd (create_research_plan ''89abcdef01234567'' failed_service ''Why?'' ''u2''))
        ''plan_01234567'') = Some Failed"
proof -
  let ?w = "\<lparr>plan_id = ''plan_01234567'', wf_query = ''Why is the sky blue?'',
            wf_user_id = ''u1'', status = Failed,
            steps = [web_search_step, context_retrieval_step, synthesis_step],
            current_step = 0,
            results = [(''web_search'', StepError ''Web search tool not available'')],
            errors = [''Step web_search: Web search tool not available'']\<rparr>"
  have a: "map_option status (active_workflows failed_service ''plan_01234567'') = Some Failed"
    by (simp add: failed_service_plan)
  have o: "wf_user_id ?w \<noteq> ''u2''" by simp
  have i: "''plan_'' @ take 8 ''89abcdef01234567'' \<noteq> ''plan_01234567''" by simp
  note t = rerun_of_plan [OF failed_service_plan, where caller = "''u2''" and ev = plain_env
            and reg = no_tools and uuid_hex = "''89abcdef01234567''" and query = "''Why?''"
            and user_id = "''u2''"]
  note t1 = rerun_of_plan [OF failed_service_plan, where caller = "''u1''" and ev = plain_env
            and reg = no_tools]
  from t o have b: "snd (execute_research_plan plain_env no_tools failed_service
      ''plan_01234567'' ''u2'') = failed_service" by blast
  from t1 have c: "snd (get_workflow_status failed_service ''plan_01234567'' ''u1'') =
      failed_service"
    and d: "snd (get_workflow_results failed_service ''plan_01234567'' ''u1'') = failed_service"
    by blast+
  from t i have "active_workflows
        (snd (create_research_plan ''89abcdef01234567'' failed_service ''Why?'' ''u2''))
        ''plan_01234567'' = Some ?w" by blast
  then have e: "map_option status
     (active_workflows
        (snd (create_research_plan ''89abcdef01234567'' failed_service ''Why?'' ''u2''))
        ''plan_01234567'') = Some Failed" by simp
  from a b c d e show ?thesis by (simp only: failed_service_rerun simp_thms)
qed

section \<open>Concept extraction\<close>

lemma split_aux_no_space:
  "w \<in> set (split_aux cur s) \<Longrightarrow> list_all (\<lambda>c. \<not> is_space c) cur \<Longrightarrow>
     list_all (\<lambda>c. \<not> is_space c) w"
proof (induction s arbitrary: cur)
  case Nil
  then show ?case by (cases "cur = []") simp_all
next
  case (Cons c cs)
  show ?case
  proof (cases "is_space c")
    case True
    show ?thesis
    proof (cases "cur = []")
      case True
      with \<open>is_space c\<close> Cons.prems(1) have "w \<in> set (split_aux [] cs)" by simp
      then show ?thesis by (rule Cons.IH) simp
    next
      case False
      with \<open>is_space c\<close> Cons.prems(1) have "w = cur \<or> w \<in> set (split_aux [] cs)" by simp
      then show ?thesis
      proof
        assume "w = cur"
        with Cons.prems(2) show ?thesis by simp
      next
        assume "w \<in> set (split_aux [] cs)"
        then show ?thesis by (rule Cons.IH) simp
      qed
    qed
  next
    case False
    with Cons.prems(1) have "w \<in> set (split_aux (cur @ [c]) cs)" by simp
    then show ?thesis
    proof (rule Cons.IH)
      from Cons.prems(2) False show "list_all (\<lambda>c. \<not> is_space c) (cur @ [c])" by simp
    qed
  qed
qed

lemma split_aux_chars:
  "w \<in> set (split_aux cur s) \<Longrightarrow> set w \<subseteq> set cur \<union> set s"
proof (induction s arbitrary: cur)
  case Nil
  then show ?case by (cases "cur = []") simp_all
next
  case (Cons c cs)
  show ?case
  proof (cases "is_space c")
    case True
    show ?thesis
    proof (cases "cur = []")
      case True
      with \<open>is_space c\<close> Cons.prems have "w \<in> set (split_aux [] cs)" by simp
      from Cons.IH [OF this] show ?thesis by auto
    next
      case False
      with \<open>is_space c\<close> Cons.prems have "w = cur \<or> w \<in> set (split_aux [] cs)" by simp
      then show ?thesis
      proof
        assume "w = cur"
        then show ?thesis by auto
      next
        assume "w \<in> set (split_aux [] cs)"
        from Cons.IH [OF this] show ?thesis by auto
      qed
    qed
  next
    case False
    with Cons.prems have "w \<in> set (split_aux (cur @ [c]) cs)" by simp
    from Cons.IH [OF this] show ?thesis by auto
  qed
qed

lemma split_tokens:
  assumes "w \<in> set (split s)"
  shows "list_all (\<lambda>c. \<not> is_space c) w \<and> set w \<subseteq> set s"
proof
  from assms have m: "w \<in> set (split_aux [] s)" by (simp add: split_def)
  from split_aux_no_space [OF m] show "list_all (\<lambda>c. \<not> is_space c) w" by simp
  from split_aux_chars [OF m] show "set w \<subseteq> set s" by simp
qed

lemma lower_char_idem: "lower_char (lower_char c) = lower_char c"
proof -
  define n where "n = (of_char c :: nat)"
  have lt: "n < 256" unfolding n_def by simp
  show ?thesis
  proof (cases "(65 \<le> n \<and> n \<le> 90) \<or> (192 \<le> n \<and> n \<le> 222 \<and> n \<noteq> 215)")
    case True
    then have l: "lower_char c = char_of (n + 32)"
      by (simp add: lower_char_def Let_def n_def)
    from True have "n + 32 < 256" by arith
    then have m: "(of_char (char_of (n + 32) :: char) :: nat) = n + 32"
      by simp
    from True have "\<not> ((65 \<le> n + 32 \<and> n + 32 \<le> 90) \<or>
                     (192 \<le> n + 32 \<and> n + 32 \<le> 222 \<and> n + 32 \<noteq> 215))"
      by arith
    then have "lower_char (char_of (n + 32)) = char_of (n + 32)"
      by (simp only: lower_char_def Let_def m if_False)
    with l show ?thesis by simp
  next
    case False
    then have "lower_char c = c"
      unfolding lower_char_def Let_def n_def [symmetric] by (simp only: if_False)
    then show ?thesis by simp
  qed
qed

lemma space_is_space: "is_space (CHR '' '')"
  by (simp add: is_space_def)

lemma concept_id_of_token:
  assumes "w \<in> set (split (lower s))"
  shows "concept_id_of w = ''concept_'' @ w"
proof -
  from split_tokens [OF assms]
  have ns: "list_all (\<lambda>c. \<not> is_space c) w" and sub: "set w \<subseteq> set (lower s)" by blast+
  have l: "lower w = w"
    unfolding lower_def
  proof (rule map_idI)
    fix c assume "c \<in> set w"
    with sub have "c \<in> set (map lower_char s)" unfolding lower_def by blast
    then obtain d where "c = lower_char d" by auto
    then show "lower_char c = c" by (simp only: lower_char_idem)
  qed
  have r: "replace_char (CHR '' '') (CHR ''_'') w = w"
    unfolding replace_char_def
  proof (rule map_idI)
    fix c assume "c \<in> set w"
    with ns have "\<not> is_space c" by (simp add: list_all_iff)
    with space_is_space have "c \<noteq> CHR '' ''" by blast
    then show "(if c = CHR '' '' then CHR ''_'' else c) = c" by simp
  qed
  show ?thesis unfolding concept_id_of_def l r ..
qed

lemma extract_concepts_tokens:
  assumes "set_order ord"
  shows "distinct (extract_concepts ord query content) \<and>
         set (extract_concepts ord query content) \<subseteq> set (split (lower (query @ '' '' @ content)))"
proof -
  define ws where "ws = filter (\<lambda>word. length word > 3 \<and> word \<notin> set stop_words)
               (split (lower (query @ '' '' @ content)))"
  have e: "extract_concepts ord query content = take 10 (ord ws)"
    unfolding extract_concepts_def Let_def ws_def ..
  from assms have d: "distinct (ord ws)" and s: "set (ord ws) = set ws"
    unfolding set_order_def by blast+
  have "set (take 10 (ord ws)) \<subseteq> set (ord ws)" by (rule set_take_subset)
  moreover have "set ws \<subseteq> set (split (lower (query @ '' '' @ content)))"
    unfolding ws_def by (rule filter_is_subset)
  moreover from d have "distinct (take 10 (ord ws))" by (rule distinct_take)
  ultimately show ?thesis unfolding e s by blast
qed

lemma extract_concepts_ids:
  assumes "set_order ord"
  shows "map concept_id_of (extract_concepts ord query content) =
           map (\<lambda>w. ''concept_'' @ w) (extract_concepts ord query content)"
proof (rule map_cong [OF refl])
  fix w
  assume "w \<in> set (extract_concepts ord query content)"
  with extract_concepts_tokens [OF assms, of query content]
  have "w \<in> set (split (lower (query @ '' '' @ content)))" by blast
  then show "concept_id_of w = ''concept_'' @ w" by (rule concept_id_of_token)
qed

lemma distinct_map_prepend: "distinct (map (\<lambda>w. p @ w) ws) = distinct ws"
  by (simp add: distinct_map inj_on_def)

lemma extract_concepts_distinct_ids:
  assumes "set_order ord"
  shows "distinct (map concept_id_of (extract_concepts ord query content))"
proof -
  from extract_concepts_tokens [OF assms, of query content]
  have "distinct (extract_concepts ord query content)" by blast
  then show ?thesis
    by (simp only: extract_concepts_ids [OF assms] distinct_map_prepend)
qed

section \<open>The memory graph\<close>

lemma starts_with_append: "starts_with p (p @ x)"
  by (induction p) simp_all

lemma concept_id_prefixed: "starts_with ''concept_'' (concept_id_of c)"
  unfolding concept_id_of_def by (rule starts_with_append)

lemma context_id_not_prefixed: "\<not> starts_with ''concept_'' (''context_'' @ now)"
  by simp

lemma list_all_update:
  "list_all P al \<Longrightarrow> P (k, v) \<Longrightarrow> list_all P (AList.update k v al)"
  by (induction al) auto

lemma graph_ok_lookup:
  assumes "graph_ok g" and "map_of (nodes g) k = Some (ResearchContext q c s u)"
  shows "\<not> starts_with ''concept_'' k"
proof -
  from assms(2) have "(k, ResearchContext q c s u) \<in> set (nodes g)" by (rule map_of_SomeD)
  with assms(1) show ?thesis unfolding graph_ok_def list_all_iff by fastforce
qed

lemma graph_ok_update_concept:
  assumes "graph_ok g"
  shows "graph_ok (g\<lparr>nodes := AList.update k (Concept a b f) (nodes g), edges := es\<rparr>)"
  using assms unfolding graph_ok_def
  by (simp add: distinct_update list_all_update)

lemma graph_ok_update_context:
  assumes "graph_ok g" and "\<not> starts_with ''concept_'' k"
  shows "graph_ok (g\<lparr>nodes := AList.update k (ResearchContext q c s u) (nodes g)\<rparr>)"
  using assms unfolding graph_ok_def
  by (simp add: distinct_update list_all_update)

lemma scan_update_concept:
  assumes "\<forall>q c s u. map_of al k \<noteq> Some (ResearchContext q c s u)"
  shows "scan_nodes ts user (AList.update k (Concept a b f) al) = scan_nodes ts user al"
  using assms
proof (induction al)
  case Nil
  then show ?case by simp
next
  case (Cons p al)
  obtain k' n where p: "p = (k', n)" by (cases p)
  show ?case
  proof (cases "k' = k")
    case True
    with Cons.prems p obtain x y z where "n = Concept x y z" by (cases n) auto
    with True p show ?thesis by simp
  next
    case False
    with Cons.prems p have "\<forall>q c s u. map_of al k \<noteq> Some (ResearchContext q c s u)" by simp
    from Cons.IH [OF this] False p show ?thesis by (cases n) (simp_all add: Let_def)
  qed
qed

text \<open>One pass of the loop, on a graph that satisfies the invariant.\<close>

lemma connect_concepts_step:
  assumes "graph_ok g"
  shows "\<exists>g1. connect_concepts cid (c # rest) g = connect_concepts cid rest g1 \<and>
              graph_ok g1 \<and>
              map_of (nodes g1) =
                (map_of (nodes g))(concept_id_of c \<mapsto> mentioned c (map_of (nodes g) (concept_id_of c))) \<and>
              (\<forall>ts user. scan_nodes ts user (nodes g1) = scan_nodes ts user (nodes g))"
proof (cases "map_of (nodes g) (concept_id_of c)")
  case None
  let ?g1 = "g\<lparr>nodes := AList.update (concept_id_of c) (Concept c ''extracted'' 1) (nodes g),
               edges := AList.update (''edge_'' @ cid @ ''_'' @ concept_id_of c)
                          (mentions_edge cid (concept_id_of c)) (edges g)\<rparr>"
  have "connect_concepts cid (c # rest) g = connect_concepts cid rest ?g1"
    using None by (simp add: Let_def)
  moreover have "graph_ok ?g1" using assms by (rule graph_ok_update_concept)
  moreover have "map_of (nodes ?g1) =
      (map_of (nodes g))(concept_id_of c \<mapsto> mentioned c (map_of (nodes g) (concept_id_of c)))"
    using None by (simp add: update_conv' mentioned_def)
  moreover have "\<forall>ts user. scan_nodes ts user (nodes ?g1) = scan_nodes ts user (nodes g)"
    using None by (simp add: scan_update_concept)
  ultimately show ?thesis by blast
next
  case (Some n)
  show ?thesis
  proof (cases n)
    case (ResearchContext q x s u)
    with Some graph_ok_lookup [OF assms] concept_id_prefixed show ?thesis by blast
  next
    case (Concept a b f)
    let ?g1 = "g\<lparr>nodes := AList.update (concept_id_of c) (Concept a b (f + 1)) (nodes g),
                 edges := AList.update (''edge_'' @ cid @ ''_'' @ concept_id_of c)
                            (mentions_edge cid (concept_id_of c)) (edges g)\<rparr>"
    have "connect_concepts cid (c # rest) g = connect_concepts cid rest ?g1"
      using Some Concept by (simp add: Let_def)
    moreover have "graph_ok ?g1" using assms by (rule graph_ok_update_concept)
    moreover have "map_of (nodes ?g1) =
        (map_of (nodes g))(concept_id_of c \<mapsto> mentioned c (map_of (nodes g) (concept_id_of c)))"
      using Some Concept by (simp add: update_conv' mentioned_def)
    moreover have "\<forall>ts user. scan_nodes ts user (nodes ?g1) = scan_nodes ts user (nodes g)"
      using Some Concept by (simp add: scan_update_concept)
    ultimately show ?thesis by blast
  qed
qed

text \<open>The whole loop, for concepts with distinct ids.\<close>

lemma connect_concepts_all:
  assumes "graph_ok g" and "distinct (map concept_id_of cs)"
  shows "\<exists>g'. connect_concepts cid cs g = (Inr (), g') \<and> graph_ok g' \<and>
     (\<forall>c \<in> set cs. map_of (nodes g') (concept_id_of c) =
                       Some (mentioned c (map_of (nodes g) (concept_id_of c)))) \<and>
     (\<forall>k. k \<notin> concept_id_of ` set cs \<longrightarrow> map_of (nodes g') k = map_of (nodes g) k) \<and>
     (\<forall>ts user. scan_nodes ts user (nodes g') = scan_nodes ts user (nodes g))"
  using assms
proof (induction cs arbitrary: g)
  case Nil
  then show ?case by simp
next
  case (Cons c0 rest)
  let ?k0 = "concept_id_of c0"
  from Cons.prems(2) have d: "distinct (map concept_id_of rest)"
    and fresh: "?k0 \<notin> concept_id_of ` set rest" by simp_all
  from connect_concepts_step [OF Cons.prems(1), of cid c0 rest]
  obtain g1 where
    s1: "connect_concepts cid (c0 # rest) g = connect_concepts cid rest g1" and
    ok1: "graph_ok g1" and
    m1: "map_of (nodes g1) = (map_of (nodes g))(?k0 \<mapsto> mentioned c0 (map_of (nodes g) ?k0))" and
    sc1: "\<forall>ts user. scan_nodes ts user (nodes g1) = scan_nodes ts user (nodes g)"
    by blast
  from Cons.IH [OF ok1 d]
  obtain g' where
    s2: "connect_concepts cid rest g1 = (Inr (), g')" and
    ok2: "graph_ok g'" and
    m2: "\<forall>c \<in> set rest. map_of (nodes g') (concept_id_of c) =
                       Some (mentioned c (map_of (nodes g1) (concept_id_of c)))" and
    o2: "\<forall>k. k \<notin> concept_id_of ` set rest \<longrightarrow> map_of (nodes g') k = map_of (nodes g1) k" and
    sc2: "\<forall>ts user. scan_nodes ts user (nodes g') = scan_nodes ts user (nodes g1)"
    by blast
  have a: "\<forall>c \<in> set (c0 # rest). map_of (nodes g') (concept_id_of c) =
                       Some (mentioned c (map_of (nodes g) (concept_id_of c)))"
  proof
    fix c assume "c \<in> set (c0 # rest)"
    then consider "c = c0" | "c \<in> set rest" "concept_id_of c \<noteq> ?k0"
      using fresh by (metis imageI set_ConsD)
    then show "map_of (nodes g') (concept_id_of c) =
                 Some (mentioned c (map_of (nodes g) (concept_id_of c)))"
    proof cases
      case 1
      with o2 fresh have "map_of (nodes g') (concept_id_of c) = map_of (nodes g1) ?k0" by simp
      with 1 m1 show ?thesis by simp
    next
      case 2
      with m2 have "map_of (nodes g') (concept_id_of c) =
                 Some (mentioned c (map_of (nodes g1) (concept_id_of c)))" by blast
      with 2 m1 show ?thesis by simp
    qed
  qed
  have b: "\<forall>k. k \<notin> concept_id_of ` set (c0 # rest) \<longrightarrow> map_of (nodes g') k = map_of (nodes g) k"
    using o2 m1 by simp
  from s1 s2 ok2 a b sc1 sc2 show ?case by simp
qed

lemma concept_id_not_context_id: "concept_id_of c \<noteq> ''context_'' @ now"
proof
  assume "concept_id_of c = ''context_'' @ now"
  with concept_id_prefixed [of c] have "starts_with ''concept_'' (''context_'' @ now)" by simp
  with context_id_not_prefixed show False by blast
qed

text \<open>
  \<open>store_context\<close> on a graph that satisfies the invariant: it returns the id of the
  context, keeps the invariant, counts one more mention for each extracted concept,
  and changes no other node but the context node it writes.
\<close>

lemma store_context_ok:
  fixes d :: context_data
  assumes "set_order ord" and "graph_ok g"
  defines "content \<equiv> (case cd_content d of None \<Rightarrow> [] | Some c \<Rightarrow> c)"
  defines "sources \<equiv> (case cd_sources d of None \<Rightarrow> VList [] | Some s \<Rightarrow> s)"
  shows "\<exists>g'. store_context ord now q d u g = (Inr (''context_'' @ now), g') \<and> graph_ok g' \<and>
     (\<forall>c \<in> set (extract_concepts ord q content).
        map_of (nodes g') (concept_id_of c) =
          Some (mentioned c (map_of (nodes g) (concept_id_of c)))) \<and>
     (\<forall>k. k \<notin> concept_id_of ` set (extract_concepts ord q content) \<longrightarrow>
          k \<noteq> ''context_'' @ now \<longrightarrow> map_of (nodes g') k = map_of (nodes g) k) \<and>
     (\<forall>ts user. scan_nodes ts user (nodes g') =
        scan_nodes ts user
          (AList.update (''context_'' @ now) (ResearchContext q content sources u) (nodes g)))"
proof -
  let ?cid = "''context_'' @ now"
  let ?cs = "extract_concepts ord q content"
  let ?g1 = "g\<lparr>nodes := AList.update ?cid (ResearchContext q content sources u) (nodes g)\<rparr>"
  have ok1: "graph_ok ?g1"
    using assms(2) context_id_not_prefixed by (rule graph_ok_update_context)
  have d: "distinct (map concept_id_of ?cs)"
    using assms(1) by (rule extract_concepts_distinct_ids)
  from connect_concepts_all [OF ok1 d, of ?cid]
  obtain g' where
    s: "connect_concepts ?cid ?cs ?g1 = (Inr (), g')" and
    ok: "graph_ok g'" and
    m: "\<forall>c \<in> set ?cs. map_of (nodes g') (concept_id_of c) =
                       Some (mentioned c (map_of (nodes ?g1) (concept_id_of c)))" and
    o: "\<forall>k. k \<notin> concept_id_of ` set ?cs \<longrightarrow> map_of (nodes g') k = map_of (nodes ?g1) k" and
    sc: "\<forall>ts user. scan_nodes ts user (nodes g') = scan_nodes ts user (nodes ?g1)"
    by blast
  have st: "store_context ord now q d u g = (Inr ?cid, g')"
    using s unfolding store_context_def create_concept_connections_def Let_def
      content_def sources_def by simp
  have m': "\<forall>c \<in> set ?cs. map_of (nodes g') (concept_id_of c) =
                       Some (mentioned c (map_of (nodes g) (concept_id_of c)))"
  proof
    fix c assume "c \<in> set ?cs"
    with m have "map_of (nodes g') (concept_id_of c) =
                       Some (mentioned c (map_of (nodes ?g1) (concept_id_of c)))" by blast
    moreover have "map_of (nodes ?g1) (concept_id_of c) = map_of (nodes g) (concept_id_of c)"
      using concept_id_not_context_id [of c now] by (simp add: update_conv')
    ultimately show "map_of (nodes g') (concept_id_of c) =
                       Some (mentioned c (map_of (nodes g) (concept_id_of c)))" by simp
  qed
  have o': "\<forall>k. k \<notin> concept_id_of ` set ?cs \<longrightarrow> k \<noteq> ?cid \<longrightarrow>
               map_of (nodes g') k = map_of (nodes g) k"
    using o by (simp add: update_conv')
  from st ok m' o' sc show ?thesis by simp
qed

lemma single_entry:
  "distinct (map fst al) \<Longrightarrow> map_of al K = Some v \<Longrightarrow>
     filter (\<lambda>(k, n). k = K) al = [(K, v)]"
proof (induction al)
  case Nil
  then show ?case by simp
next
  case (Cons p al)
  obtain k n where p: "p = (k, n)" by (cases p)
  show ?case
  proof (cases "k = K")
    case True
    with Cons.prems p have v: "n = v" and "K \<notin> fst ` set al" by auto
    then have "filter (\<lambda>(k, n). k = K) al = []"
      by (force simp: filter_empty_conv)
    with True p v show ?thesis by simp
  next
    case False
    with Cons p show ?thesis by simp
  qed
qed

lemma experiment_id: "concept_id_of ''experiment'' = ''concept_experiment''"
  by code_simp

text \<open>
  Claim C9.  On a graph that satisfies the invariant of the service and has no node
  under the id \<open>concept_experiment\<close>, two calls of \<open>store_context\<close> by different
  owners whose extracted concepts both include "experiment" succeed and leave
  exactly one node under that id: the concept "experiment" with frequency 2.
\<close>

theorem concept_frequency_is_global:
  assumes "set_order ord" and "graph_ok g"
    and "map_of (nodes g) ''concept_experiment'' = None"
    and "''experiment'' \<in> set (extract_concepts ord q1
                                  (case cd_content d1 of None \<Rightarrow> [] | Some c \<Rightarrow> c))"
    and "''experiment'' \<in> set (extract_concepts ord q2
                                  (case cd_content d2 of None \<Rightarrow> [] | Some c \<Rightarrow> c))"
    and "u1 \<noteq> u2"
  shows "\<exists>g1 g2.
     store_context ord t1 q1 d1 u1 g = (Inr (''context_'' @ t1), g1) \<and>
     store_context ord t2 q2 d2 u2 g1 = (Inr (''context_'' @ t2), g2) \<and>
     map_of (nodes g2) ''concept_experiment'' = Some (Concept ''experiment'' ''extracted'' 2) \<and>
     filter (\<lambda>(k, n). k = ''concept_experiment'') (nodes g2) =
       [(''concept_experiment'', Concept ''experiment'' ''extracted'' 2)]"
proof -
  from store_context_ok [OF assms(1,2), of t1 q1 d1 u1]
  obtain g1 where
    s1: "store_context ord t1 q1 d1 u1 g = (Inr (''context_'' @ t1), g1)" and
    ok1: "graph_ok g1" and
    m1: "\<forall>c \<in> set (extract_concepts ord q1 (case cd_content d1 of None \<Rightarrow> [] | Some c \<Rightarrow> c)).
        map_of (nodes g1) (concept_id_of c) =
          Some (mentioned c (map_of (nodes g) (concept_id_of c)))"
    by blast
  from m1 assms(4) have "map_of (nodes g1) (concept_id_of ''experiment'') =
          Some (mentioned ''experiment'' (map_of (nodes g) (concept_id_of ''experiment'')))"
    by blast
  then have f1: "map_of (nodes g1) ''concept_experiment'' =
      Some (Concept ''experiment'' ''extracted'' 1)"
    unfolding experiment_id using assms(3) by (simp add: mentioned_def)
  from store_context_ok [OF assms(1) ok1, of t2 q2 d2 u2]
  obtain g2 where
    s2: "store_context ord t2 q2 d2 u2 g1 = (Inr (''context_'' @ t2), g2)" and
    ok2: "graph_ok g2" and
    m2: "\<forall>c \<in> set (extract_concepts ord q2 (case cd_content d2 of None \<Rightarrow> [] | Some c \<Rightarrow> c)).
        map_of (nodes g2) (concept_id_of c) =
          Some (mentioned c (map_of (nodes g1) (concept_id_of c)))"
    by blast
  from m2 assms(5) have "map_of (nodes g2) (concept_id_of ''experiment'') =
          Some (mentioned ''experiment'' (map_of (nodes g1) (concept_id_of ''experiment'')))"
    by blast
  then have f2: "map_of (nodes g2) ''concept_experiment'' =
      Some (Concept ''experiment'' ''extracted'' 2)"
    unfolding experiment_id using f1 by (simp add: mentioned_def)
  from ok2 have "distinct (map fst (nodes g2))" unfolding graph_ok_def by blast
  from single_entry [OF this f2] s1 s2 f2 show ?thesis by blast
qed


lemma set_order_remdups: "set_order remdups"
  by (simp add: set_order_def)

lemma graph_ok_empty: "graph_ok empty_graph"
  by (simp add: graph_ok_def empty_graph_def)

lemma experiment_examples:
  "''experiment'' \<in> set (extract_concepts remdups ''Experiment design''
                            (case cd_content \<lparr>cd_content = Some ''a controlled experiment'',
                                              cd_sources = None\<rparr> of
                               None \<Rightarrow> [] | Some c \<Rightarrow> c))"
  "''experiment'' \<in> set (extract_concepts remdups ''repeat the experiment''
                            (case cd_content \<lparr>cd_content = None, cd_sources = None\<rparr> of
                               None \<Rightarrow> [] | Some c \<Rightarrow> c))"
  by code_simp+

theorem concept_frequency_is_global_witness:
  "filter (\<lambda>(k, n). k = ''concept_experiment'')
     (nodes (snd (store_context remdups ''2'' ''repeat the experiment''
                    \<lparr>cd_content = None, cd_sources = None\<rparr> ''u2''
                    (snd (store_context remdups ''1'' ''Experiment design''
                            \<lparr>cd_content = Some ''a controlled experiment'', cd_sources = None\<rparr>
                            ''u1'' empty_graph))))) =
     [(''concept_experiment'', Concept ''experiment'' ''extracted'' 2)]"
proof -
  have n: "map_of (nodes empty_graph) ''concept_experiment'' = None"
    by (simp add: empty_graph_def)
  have u: "''u1'' \<noteq> ''u2''" by simp
  from concept_frequency_is_global
         [OF set_order_remdups graph_ok_empty n experiment_examples u, of "''1''" "''2''"]
  obtain g1 g2 where
    "store_context remdups ''1'' ''Experiment design''
       \<lparr>cd_content = Some ''a controlled experiment'', cd_sources = None\<rparr> ''u1'' empty_graph =
       (Inr (''context_'' @ ''1''), g1)"
    "store_context remdups ''2'' ''repeat the experiment''
       \<lparr>cd_content = None, cd_sources = None\<rparr> ''u2'' g1 = (Inr (''context_'' @ ''2''), g2)"
    "filter (\<lambda>(k, n). k = ''concept_experiment'') (nodes g2) =
       [(''concept_experiment'', Concept ''experiment'' ''extracted'' 2)]"
    by blast
  then show ?thesis by simp
qed

section \<open>Storing, then retrieving\<close>

lemma scan_cons: "scan_nodes ts u (p # al) = scan_nodes ts u [p] @ scan_nodes ts u al"
proof -
  obtain k n where p: "p = (k, n)" by (cases p)
  show ?thesis unfolding p by (cases n) (simp_all add: Let_def)
qed

lemma scan_single_length: "length (scan_nodes ts u [p]) \<le> 1"
proof -
  obtain k n where p: "p = (k, n)" by (cases p)
  show ?thesis unfolding p by (cases n) (simp_all add: Let_def)
qed

lemma scan_new_context:
  assumes "0 < score_terms ts (lower c) (lower q)"
  shows "scan_nodes ts u [(k, ResearchContext q c s u)] =
           [\<lparr>hit_context_id = k, hit_query = q, hit_content = c, hit_sources = s,
             relevance_score = score_terms ts (lower c) (lower q)\<rparr>]"
  using assms by (simp add: Let_def)

text \<open>
  Writing a context node that scores for the query: its hit is among the hits of
  the scan, and at most one hit is added.
\<close>

lemma scan_update_context:
  assumes "0 < score_terms ts (lower c) (lower q)"
  shows "\<lparr>hit_context_id = k, hit_query = q, hit_content = c, hit_sources = s,
           relevance_score = score_terms ts (lower c) (lower q)\<rparr>
           \<in> set (scan_nodes ts u (AList.update k (ResearchContext q c s u) al)) \<and>
         length (filter P (scan_nodes ts u (AList.update k (ResearchContext q c s u) al))) \<le>
           Suc (length (filter P (scan_nodes ts u al)))"
proof (induction al)
  case Nil
  show ?case using assms by (simp add: Let_def)
next
  case (Cons p al)
  obtain k' n where p: "p = (k', n)" by (cases p)
  let ?new = "(k, ResearchContext q c s u)"
  show ?case
  proof (cases "k' = k")
    case True
    then have u: "AList.update k (ResearchContext q c s u) (p # al) = ?new # al"
      by (simp add: p)
    have a: "scan_nodes ts u (?new # al) = scan_nodes ts u [?new] @ scan_nodes ts u al"
      by (rule scan_cons)
    have b: "scan_nodes ts u (p # al) = scan_nodes ts u [p] @ scan_nodes ts u al"
      by (rule scan_cons)
    show ?thesis
      unfolding u a b using assms by (simp add: Let_def)
  next
    case False
    then have u: "AList.update k (ResearchContext q c s u) (p # al) =
        p # AList.update k (ResearchContext q c s u) al"
      by (simp add: p)
    have a: "scan_nodes ts u (p # AList.update k (ResearchContext q c s u) al) =
        scan_nodes ts u [p] @ scan_nodes ts u (AList.update k (ResearchContext q c s u) al)"
      by (rule scan_cons)
    have b: "scan_nodes ts u (p # al) = scan_nodes ts u [p] @ scan_nodes ts u al"
      by (rule scan_cons)
    from Cons.IH show ?thesis unfolding u a b by simp
  qed
qed

text \<open>
  The stable sort and the cut: an element stays among the first \<open>n\<close> of the sorted
  list when at most \<open>n\<close> elements have a key as small as its own.
\<close>

lemma kept_by_take_sort:
  fixes f :: "'a \<Rightarrow> int"
  assumes "x \<in> set xs" and "length (filter (\<lambda>y. f y \<le> f x) xs) \<le> n"
  shows "x \<in> set (take n (sort_key f xs))"
proof (rule ccontr)
  assume out: "x \<notin> set (take n (sort_key f xs))"
  let ?ys = "sort_key f xs"
  let ?P = "\<lambda>y. f y \<le> f x"
  have ys: "?ys = take n ?ys @ drop n ?ys" by simp
  from assms(1) have "x \<in> set ?ys" by simp
  with out have xd: "x \<in> set (drop n ?ys)"
    by (metis ys Un_iff set_append)
  then have "drop n ?ys \<noteq> []" by auto
  then have len: "length (take n ?ys) = n" by simp
  have "sorted (map f (take n ?ys @ drop n ?ys))" by simp
  then have "\<forall>a \<in> set (take n ?ys). \<forall>b \<in> set (drop n ?ys). f a \<le> f b"
    unfolding map_append sorted_append by auto
  with xd have "\<forall>a \<in> set (take n ?ys). ?P a" by blast
  then have t: "filter ?P (take n ?ys) = take n ?ys" by (simp add: filter_id_conv)
  from xd have "filter ?P (drop n ?ys) \<noteq> []" by (auto simp: filter_empty_conv)
  then have d: "1 \<le> length (filter ?P (drop n ?ys))"
    by (cases "filter ?P (drop n ?ys)") simp_all
  have "length (filter ?P ?ys) = length (filter ?P (take n ?ys)) + length (filter ?P (drop n ?ys))"
    by (metis ys filter_append length_append)
  with t len d have big: "n + 1 \<le> length (filter ?P ?ys)" by simp
  have "mset (filter ?P ?ys) = mset (filter ?P xs)"
    by (simp add: mset_filter)
  then have "length (filter ?P ?ys) = length (filter ?P xs)"
    by (metis size_mset)
  with big assms(2) show False by simp
qed

lemma neural_score:
  "score_terms (split (lower ''neural nets'')) (lower ''neural nets for vision'')
     (lower ''neural nets'') = 6"
  by code_simp

text \<open>
  Claim C8, as stated, fails: the graph may be in a state where five contexts of the
  owner already reach the highest score for the query.  The stable sort keeps them
  first and the cut at \<open>max_results = 5\<close> drops the context just stored.
\<close>

theorem round_trip_crowded_out:
  "fst (store_context remdups ''6'' ''neural nets'' neural_data ''u1'' five_contexts) =
     Inr ''context_6'' \<and>
   map (\<lambda>h. (hit_context_id h, relevance_score h))
     (retrieve_context ''neural nets'' ''u1'' 5
        (snd (store_context remdups ''6'' ''neural nets'' neural_data ''u1'' five_contexts))) =
     [(''context_1'', 6), (''context_2'', 6), (''context_3'', 6), (''context_4'', 6),
      (''context_5'', 6)]"
  by code_simp

text \<open>
  Claim C8, amended.  On a graph that satisfies the invariant of the service and in
  which fewer than five contexts of "u1" reach the score 6 for the query "neural
  nets", \<open>store_context("neural nets", {content: "neural nets for vision"}, "u1")\<close>
  succeeds, and \<open>retrieve_context("neural nets", "u1", 5)\<close> on the new graph returns
  the stored context, with the score 6.
\<close>

theorem round_trip_retrieval:
  assumes "set_order ord" and "graph_ok g"
    and "length (filter (\<lambda>h. 6 \<le> relevance_score h)
                   (scan_nodes (split (lower ''neural nets'')) ''u1'' (nodes g))) < 5"
  shows "\<exists>g'.
     store_context ord now ''neural nets''
       \<lparr>cd_content = Some ''neural nets for vision'', cd_sources = srcs\<rparr> ''u1'' g =
       (Inr (''context_'' @ now), g') \<and>
     \<lparr>hit_context_id = ''context_'' @ now, hit_query = ''neural nets'',
       hit_content = ''neural nets for vision'',
       hit_sources = (case srcs of None \<Rightarrow> VList [] | Some s \<Rightarrow> s),
       relevance_score = 6\<rparr>
       \<in> set (retrieve_context ''neural nets'' ''u1'' 5 g')"
proof -
  let ?ts = "split (lower ''neural nets'')"
  let ?src = "case srcs of None \<Rightarrow> VList [] | Some s \<Rightarrow> s"
  let ?h = "\<lparr>hit_context_id = ''context_'' @ now, hit_query = ''neural nets'',
       hit_content = ''neural nets for vision'', hit_sources = ?src, relevance_score = 6\<rparr>"
  let ?P = "\<lambda>h :: hit. 6 \<le> relevance_score h"
  let ?al = "AList.update (''context_'' @ now)
               (ResearchContext ''neural nets'' ''neural nets for vision'' ?src ''u1'') (nodes g)"
  from store_context_ok [OF assms(1,2), of now "''neural nets''"
      "\<lparr>cd_content = Some ''neural nets for vision'', cd_sources = srcs\<rparr>" "''u1''"]
  obtain g' where
    st: "store_context ord now ''neural nets''
       \<lparr>cd_content = Some ''neural nets for vision'', cd_sources = srcs\<rparr> ''u1'' g =
       (Inr (''context_'' @ now), g')" and
    sc: "\<forall>ts user. scan_nodes ts user (nodes g') = scan_nodes ts user ?al"
    by auto
  have pos: "0 < score_terms ?ts (lower ''neural nets for vision'') (lower ''neural nets'')"
    by (simp only: neural_score)
  from scan_update_context [OF pos, where k = "''context_'' @ now" and s = ?src
      and u = "''u1''" and P = ?P and al = "nodes g"]
  have mem: "?h \<in> set (scan_nodes ?ts ''u1'' ?al)"
    and cnt: "length (filter ?P (scan_nodes ?ts ''u1'' ?al)) \<le>
                Suc (length (filter ?P (scan_nodes ?ts ''u1'' (nodes g))))"
    by (simp_all only: neural_score)
  let ?xs = "scan_nodes ?ts ''u1'' (nodes g')"
  from sc mem have m: "?h \<in> set ?xs" by simp
  from sc cnt assms(3) have c: "length (filter ?P ?xs) \<le> 5" by simp
  have "(\<lambda>y. - relevance_score y \<le> - relevance_score ?h) = ?P" by (simp add: fun_eq_iff)
  with c have "length (filter (\<lambda>y. - relevance_score y \<le> - relevance_score ?h) ?xs) \<le> 5"
    by simp
  from kept_by_take_sort [OF m this]
  have "?h \<in> set (take 5 (sort_key (\<lambda>h. - relevance_score h) ?xs))" .
  then have "?h \<in> set (retrieve_context ''neural nets'' ''u1'' 5 g')"
    by (simp add: retrieve_context_def retrieve_with_terms_def sort_by_relevance_def
          slice_to_def)
  with st show ?thesis by blast
qed


theorem round_trip_retrieval_witness:
  "\<lparr>hit_context_id = ''context_1'', hit_query = ''neural nets'',
     hit_content = ''neural nets for vision'', hit_sources = VList [],
     relevance_score = 6\<rparr>
     \<in> set (retrieve_context ''neural nets'' ''u1'' 5
              (snd (store_context remdups ''1'' ''neural nets'' neural_data ''u1'' empty_graph)))"
proof -
  have few: "length (filter (\<lambda>h. 6 \<le> relevance_score h)
                   (scan_nodes (split (lower ''neural nets'')) ''u1'' (nodes empty_graph))) < 5"
    by (simp add: empty_graph_def)
  from round_trip_retrieval [OF set_order_remdups graph_ok_empty few, of "''1''" None]
  obtain g' where
    "store_context remdups ''1'' ''neural nets''
       \<lparr>cd_content = Some ''neural nets for vision'', cd_sources = None\<rparr> ''u1'' empty_graph =
       (Inr (''context_'' @ ''1''), g')"
    "\<lparr>hit_context_id = ''context_'' @ ''1'', hit_query = ''neural nets'',
       hit_content = ''neural nets for vision'',
       hit_sources = (case None of None \<Rightarrow> VList [] | Some s \<Rightarrow> s),
       relevance_score = 6\<rparr>
       \<in> set (retrieve_context ''neural nets'' ''u1'' 5 g')"
    by blast
  then show ?thesis by (simp add: neural_data_def)
qed

end
